theory Spec2Isabelle
  imports Complex_Main "HOL-Library.Char_ord" "HOL-Library.List_Lexorder"
    "HOL-Library.Product_Lexorder"
    "HOL-Library.Sorting_Algorithms"
begin

section \<open>Strings and iteration names\<close>

text \<open>
  JavaScript strings are modelled as \<^typ>\<open>string\<close> (lists of characters); the model is
  exact for ASCII text, where the order on UTF-16 code units used by
  \<^verbatim>\<open>Array.prototype.sort()\<close> is the lexicographic order on character codes.

  \<^verbatim>\<open>String(iterationNum).padStart(2, '0')\<close> is the decimal numeral of the counter,
  filled with zeros on the left up to two characters.
\<close>

definition digit_char :: "nat \<Rightarrow> char" where
  "digit_char d = char_of (of_char CHR ''0'' + d)"

fun String_of_nat :: "nat \<Rightarrow> string" where
  "String_of_nat n =
     (if n < 10 then [digit_char n] else String_of_nat (n div 10) @ [digit_char (n mod 10)])"

declare String_of_nat.simps [simp del]

definition padStart :: "nat \<Rightarrow> char \<Rightarrow> string \<Rightarrow> string" where
  "padStart w c s = replicate (w - length s) c @ s"

definition sprint_name :: "string \<Rightarrow> nat \<Rightarrow> string" where
  "sprint_name piName n = piName @ ''_'' @ padStart 2 CHR ''0'' (String_of_nat n)"

section \<open>Issues and the external issue source\<close>

text \<open>
  An issue as the tracker returns it: \<^verbatim>\<open>fields.assignee\<close> (absent or null is
  \<^const>\<open>None\<close>) with its optional \<^verbatim>\<open>displayName\<close> and \<^verbatim>\<open>name\<close>,
  \<^verbatim>\<open>fields.timeestimate\<close> (integer seconds; absent or null is \<^const>\<open>None\<close>), and the
  property \<^verbatim>\<open>_sprintName\<close> that the probing loop attaches.
\<close>

record assignee =
  displayName :: "string option"
  name :: "string option"

record jira_fields =
  assignee :: "assignee option"
  timeestimate :: "int option"

record issue =
  issue_fields :: jira_fields
  sprintName_tag :: "string option"

text \<open>
  The outcomes of one search request. The promise of \<^verbatim>\<open>fetch\<close> (or the parsing of the
  body) rejects: \<open>FetchThrows\<close>. Otherwise there is a response with its flag
  \<^verbatim>\<open>r.ok\<close> and the parsed body \<^verbatim>\<open>data\<close>. The body can be the JSON value
  \<^verbatim>\<open>null\<close>, on which every property read throws: \<open>HttpErrorNull\<close> when the response
  is not ok (the loop reads \<^verbatim>\<open>data.errorMessages\<close> for its warning) and
  \<open>HttpOkNull\<close> when it is ok (the loop reads \<^verbatim>\<open>data.issues\<close>). With any other
  body the response is \<open>HttpError\<close> when it is not ok and \<open>HttpOk\<close> with the list
  \<^verbatim>\<open>data.issues || []\<close> when it is ok; a value of \<^verbatim>\<open>data.issues\<close> is an array of
  issues. The issue source is a function from the queried sprint name to the outcome; the
  loop queries every name at most once.
\<close>

datatype response =
  FetchThrows | HttpErrorNull | HttpOkNull | HttpError | HttpOk "issue list"

datatype js_error = FetchRejected | TypeError

section \<open>The probing loop of GET /api/capacity\<close>

text \<open>
  The state of the loop: \<^verbatim>\<open>allIssues\<close>, \<^verbatim>\<open>iterationsFound\<close> (a Set, kept in
  insertion order), \<^verbatim>\<open>iterationNum\<close>, the trace of the sprint names queried (what the
  line \<^verbatim>\<open>Fetching Iteration\<close> logs), and whether a request threw.
\<close>

record probe_state =
  allIssues :: "issue list"
  iterationsFound :: "string list"
  iterationNum :: nat
  probed :: "string list"
  thrown :: "js_error option"

definition set_add :: "'a \<Rightarrow> 'a list \<Rightarrow> 'a list" where
  "set_add x xs = (if x \<in> set xs then xs else xs @ [x])"

definition tag_issue :: "string \<Rightarrow> issue \<Rightarrow> issue" where
  "tag_issue sprintName i = i\<lparr>sprintName_tag := Some sprintName\<rparr>"

definition found_issues :: "string \<Rightarrow> issue list \<Rightarrow> probe_state \<Rightarrow> probe_state" where
  "found_issues sprintName issues s =
     s\<lparr>allIssues := allIssues s @ map (tag_issue sprintName) issues,
       iterationsFound := set_add sprintName (iterationsFound s),
       iterationNum := iterationNum s + 1\<rparr>"

function probe_loop :: "string \<Rightarrow> (string \<Rightarrow> response) \<Rightarrow> probe_state \<Rightarrow> probe_state" where
  "probe_loop piName src s =
     (let sprintName = sprint_name piName (iterationNum s);
          s1 = s\<lparr>probed := probed s @ [sprintName]\<rparr>
      in case src sprintName of
           FetchThrows \<Rightarrow> s1\<lparr>thrown := Some FetchRejected\<rparr>
         | HttpErrorNull \<Rightarrow> s1\<lparr>thrown := Some TypeError\<rparr>
         | HttpOkNull \<Rightarrow> s1\<lparr>thrown := Some TypeError\<rparr>
         | HttpError \<Rightarrow> s1
         | HttpOk issues \<Rightarrow>
             if issues = [] then s1
             else if iterationNum (found_issues sprintName issues s1) > 50
               then found_issues sprintName issues s1
               else probe_loop piName src (found_issues sprintName issues s1))"
  by pat_completeness auto
termination
  by (relation "measure (\<lambda>(piName, src, s). 51 - iterationNum s)")
     (auto simp: found_issues_def)

declare probe_loop.simps [simp del]

definition probe_init :: probe_state where
  "probe_init = \<lparr>allIssues = [], iterationsFound = [], iterationNum = 1, probed = [],
                  thrown = None\<rparr>"

text \<open>
  What the loop has collected when it stops at sequence number \<open>n\<close>: the issues of the
  iterations before \<open>n\<close>, each tagged with the name it was queried under.
\<close>

definition issues_of :: "response \<Rightarrow> issue list" where
  "issues_of r = (case r of HttpOk issues \<Rightarrow> issues | _ \<Rightarrow> [])"

definition collected :: "string \<Rightarrow> (string \<Rightarrow> response) \<Rightarrow> nat \<Rightarrow> nat \<Rightarrow> issue list" where
  "collected piName src i n =
     concat (map (\<lambda>m. map (tag_issue (sprint_name piName m))
                          (issues_of (src (sprint_name piName m)))) [i..<n])"

text \<open>An issue carries the name of one of the sequence numbers 1 to 50 as its tag.\<close>

definition tagged_in_range :: "string \<Rightarrow> issue \<Rightarrow> bool" where
  "tagged_in_range piName i =
     (case sprintName_tag i of
        None \<Rightarrow> False
      | Some t \<Rightarrow> t \<in> set (map (sprint_name piName) [1..<51]))"

definition prober :: "string \<Rightarrow> (string \<Rightarrow> response) \<Rightarrow> js_error + probe_state" where
  "prober piName src =
     (let s = probe_loop piName src probe_init
      in case thrown s of Some e \<Rightarrow> Inl e | None \<Rightarrow> Inr s)"

section \<open>JavaScript objects used as dictionaries\<close>

text \<open>
  The handlers keep their tables in plain objects (\<^verbatim>\<open>{}\<close>). An object is modelled by the
  list of its own properties in insertion order. A read \<^verbatim>\<open>obj[k]\<close> also sees what the
  object inherits from \<^verbatim>\<open>Object.prototype\<close>: for the twelve names below it yields a
  function (or, for \<^verbatim>\<open>__proto__\<close>, the prototype itself), which is truthy and has no
  properties of the tables' entries. A write \<^verbatim>\<open>obj[k] = v\<close> creates or replaces an own
  property, except that writing \<^verbatim>\<open>__proto__\<close> sets the prototype and creates no own
  property.
\<close>

definition object_prototype_keys :: "string list" where
  "object_prototype_keys =
     [''constructor'', ''__defineGetter__'', ''__defineSetter__'', ''hasOwnProperty'',
      ''__lookupGetter__'', ''__lookupSetter__'', ''isPrototypeOf'', ''propertyIsEnumerable'',
      ''toString'', ''valueOf'', ''__proto__'', ''toLocaleString'']"

datatype 'a js_lookup = Own 'a | Inherited | Undefined

definition js_get :: "(string \<times> 'a) list \<Rightarrow> string \<Rightarrow> 'a js_lookup" where
  "js_get obj k =
     (case map_of obj k of
        Some v \<Rightarrow> Own v
      | None \<Rightarrow> if k \<in> set object_prototype_keys then Inherited else Undefined)"

fun js_set :: "(string \<times> 'a) list \<Rightarrow> string \<Rightarrow> 'a \<Rightarrow> (string \<times> 'a) list" where
  "js_set [] k v = [(k, v)]"
| "js_set ((k', v') # obj) k v =
     (if k' = k then (k, v) # obj else (k', v') # js_set obj k v)"

definition js_assign :: "(string \<times> 'a) list \<Rightarrow> string \<Rightarrow> 'a \<Rightarrow> (string \<times> 'a) list" where
  "js_assign obj k v = (if k = ''__proto__'' then obj else js_set obj k v)"

text \<open>\<^verbatim>\<open>a || b\<close> on an optional string: absent, null and the empty string are falsy.\<close>

definition js_or :: "string option \<Rightarrow> string \<Rightarrow> string" where
  "js_or a b = (case a of None \<Rightarrow> b | Some s \<Rightarrow> if s = [] then b else s)"

section \<open>The aggregation of GET /api/capacity\<close>

text \<open>
  \<^verbatim>\<open>members\<close> maps a member name to \<^verbatim>\<open>{ name, capacity }\<close>, where \<^verbatim>\<open>capacity\<close> maps
  a sprint name to planned seconds; \<^verbatim>\<open>iterations\<close> is a Set of sprint names.

  The reads of \<^verbatim>\<open>capacity[sprintName]\<close> are modelled on own properties only: every tag
  the probing loop attaches is \<^const>\<open>sprint_name\<close> of some number and ends in a decimal
  digit, so it is never a name inherited from \<^verbatim>\<open>Object.prototype\<close>.
\<close>

record member =
  member_name :: string
  member_capacity :: "(string \<times> int) list"

record agg_state =
  members :: "(string \<times> member) list"
  iterations :: "string list"

definition agg_init :: agg_state where
  "agg_init = \<lparr>members = [], iterations = []\<rparr>"

definition assigneeName_of :: "assignee \<Rightarrow> string" where
  "assigneeName_of a = js_or (displayName a) (js_or (name a) ''Unassigned'')"

definition remainingEstimate_of :: "issue \<Rightarrow> int" where
  "remainingEstimate_of i = (case timeestimate (issue_fields i) of None \<Rightarrow> 0 | Some n \<Rightarrow> n)"

definition add_estimate :: "string \<Rightarrow> int \<Rightarrow> member \<Rightarrow> member" where
  "add_estimate sprintName remainingEstimate m =
     (let cur = (case map_of (member_capacity m) sprintName of None \<Rightarrow> 0 | Some v \<Rightarrow> v)
      in m\<lparr>member_capacity := js_assign (member_capacity m) sprintName (cur + remainingEstimate)\<rparr>)"

definition aggregate_issue :: "issue \<Rightarrow> agg_state \<Rightarrow> js_error + agg_state" where
  "aggregate_issue i st =
     (case assignee (issue_fields i) of
        None \<Rightarrow> Inr st
      | Some a \<Rightarrow>
          (let assigneeName = assigneeName_of a;
               remainingEstimate = remainingEstimate_of i
           in case sprintName_tag i of
                None \<Rightarrow> Inr st
              | Some sprintName \<Rightarrow>
                  if sprintName = [] then Inr st
                  else
                    (let st1 = st\<lparr>iterations := set_add sprintName (iterations st)\<rparr>
                     in case js_get (members st1) assigneeName of
                          Inherited \<Rightarrow> Inl TypeError
                        | Undefined \<Rightarrow>
                            Inr (st1\<lparr>members := js_assign (members st1) assigneeName
                              (add_estimate sprintName remainingEstimate
                                 \<lparr>member_name = assigneeName, member_capacity = []\<rparr>)\<rparr>)
                        | Own m \<Rightarrow>
                            Inr (st1\<lparr>members := js_assign (members st1) assigneeName
                              (add_estimate sprintName remainingEstimate m)\<rparr>))))"

fun aggregate :: "issue list \<Rightarrow> agg_state \<Rightarrow> js_error + agg_state" where
  "aggregate [] st = Inr st"
| "aggregate (i # rest) st =
     (case aggregate_issue i st of Inl e \<Rightarrow> Inl e | Inr st' \<Rightarrow> aggregate rest st')"

text \<open>
  The planned total that the specification gives a (member, iteration) pair: the sum of the
  remaining estimates of the issues tagged with the iteration whose assignee resolves to the
  member. \<open>planned_lookup\<close> reads the total the aggregation holds for the pair, and
  \<open>aggregable\<close> says that the member name of an assigned issue is not a name that every
  object inherits.
\<close>

text \<open>
  JavaScript numbers are doubles. The model adds estimates as integers and multiplies hours
  as rationals; both agree with the doubles as long as the operands and the results are
  integers of magnitude at most \<open>2 ^ 53\<close>, which every double represents exactly.
\<close>

definition double_exact_bound :: int where
  "double_exact_bound = 2 ^ 53"

definition attributed :: "string \<Rightarrow> string \<Rightarrow> issue \<Rightarrow> bool" where
  "attributed memberName sprintName i =
     (case assignee (issue_fields i) of
        None \<Rightarrow> False
      | Some a \<Rightarrow> assigneeName_of a = memberName \<and> sprintName_tag i = Some sprintName)"

definition planned_total :: "issue list \<Rightarrow> string \<Rightarrow> string \<Rightarrow> int" where
  "planned_total issues memberName sprintName =
     sum_list (map remainingEstimate_of (filter (attributed memberName sprintName) issues))"

definition planned_lookup :: "agg_state \<Rightarrow> string \<Rightarrow> string \<Rightarrow> int option" where
  "planned_lookup st memberName sprintName =
     (case map_of (members st) memberName of
        None \<Rightarrow> None
      | Some m \<Rightarrow> map_of (member_capacity m) sprintName)"

definition aggregable :: "issue \<Rightarrow> bool" where
  "aggregable i =
     (case assignee (issue_fields i) of
        None \<Rightarrow> True
      | Some a \<Rightarrow> assigneeName_of a \<notin> set object_prototype_keys)"

section \<open>The spreadsheet loader getCapacityFromExcel\<close>

text \<open>
  A cell of the grid that \<^verbatim>\<open>sheet_to_json(sheet, { header: 1 })\<close> returns: a hole, null or
  undefined (\<open>Blank\<close>), a string, a number or a boolean. Numbers are exact rationals, so
  \<^verbatim>\<open>val * 3600\<close> is exact; the rounding of IEEE doubles is not part of the model. A file of
  the directory \<^verbatim>\<open>example_files\<close> is what reading it gives: an exception of
  \<^verbatim>\<open>xlsx.readFile\<close> or \<^verbatim>\<open>sheet_to_json\<close>, or the grid of the first sheet. The
  directory is a map from file names to files. The conversion of a number to a property key
  (\<^verbatim>\<open>Number.prototype.toString\<close>) is a parameter.
\<close>

datatype cell = Blank | Str string | Num rat | Bool bool

datatype xlsx_file = Unreadable | Sheet "cell list list"

type_synonym directory = "string \<Rightarrow> xlsx_file option"

record baseline =
  baseline_members :: "cell list"
  baseline_capacity :: "(string \<times> (string \<times> rat) list) list"

definition key_of :: "(rat \<Rightarrow> string) \<Rightarrow> cell \<Rightarrow> string" where
  "key_of numToString c =
     (case c of Str s \<Rightarrow> s | Num q \<Rightarrow> numToString q
      | Bool b \<Rightarrow> (if b then ''true'' else ''false'') | Blank \<Rightarrow> ''undefined'')"

definition possibleFilenames :: "string \<Rightarrow> string list" where
  "possibleFilenames piName =
     [''PI_CAPA_20'' @ piName @ ''.xlsx'',
      ''PI_CAPA_'' @ piName @ ''.xlsx'',
      ''PI_CAPA_20'' @ remove1 CHR ''_'' piName @ ''.xlsx'']"

definition cell_at :: "cell list \<Rightarrow> nat \<Rightarrow> cell" where
  "cell_at row k = (if k < length row then row ! k else Blank)"

definition startsWith :: "string \<Rightarrow> string \<Rightarrow> bool" where
  "startsWith s p = (take (length p) s = p)"

definition replace_prefix :: "string \<Rightarrow> string \<Rightarrow> string" where
  "replace_prefix p s = (if startsWith s p then drop (length p) s else s)"

definition membersList_of :: "cell list \<Rightarrow> cell list" where
  "membersList_of row0 = filter (\<lambda>name. name \<noteq> Blank) (drop 4 row0)"

definition init_capacityMap ::
    "(rat \<Rightarrow> string) \<Rightarrow> cell list \<Rightarrow> (string \<times> (string \<times> rat) list) list" where
  "init_capacityMap numToString membersList =
     fold (\<lambda>name cm. js_assign cm (key_of numToString name) []) membersList []"

definition set_capacity ::
    "(string \<times> (string \<times> rat) list) list \<Rightarrow> string \<Rightarrow> string \<Rightarrow> rat
       \<Rightarrow> (string \<times> (string \<times> rat) list) list" where
  "set_capacity cm k currentIteration v =
     (case map_of cm k of
        Some inner \<Rightarrow> js_set cm k (js_assign inner currentIteration v)
      | None \<Rightarrow> cm)"

text \<open>The value that a capacity map holds for a member key and an iteration name.\<close>

definition capacity_lookup ::
    "(string \<times> (string \<times> rat) list) list \<Rightarrow> string \<Rightarrow> string \<Rightarrow> rat option" where
  "capacity_lookup cm memberName iterationName =
     (case map_of cm memberName of
        None \<Rightarrow> None
      | Some inner \<Rightarrow> map_of inner iterationName)"

definition capa_row ::
    "(rat \<Rightarrow> string) \<Rightarrow> cell list \<Rightarrow> cell list \<Rightarrow> string
       \<Rightarrow> (string \<times> (string \<times> rat) list) list \<Rightarrow> (string \<times> (string \<times> rat) list) list" where
  "capa_row numToString membersList row currentIteration cm =
     fold (\<lambda>(name, idx) cm'.
             case cell_at row (idx + 4) of
               Num val \<Rightarrow> set_capacity cm' (key_of numToString name) currentIteration (val * 3600)
             | _ \<Rightarrow> cm')
          (zip membersList [0..<length membersList]) cm"

record parse_state =
  currentIteration :: "string option"
  capacityMap :: "(string \<times> (string \<times> rat) list) list"

definition iteration_of_row :: "cell list \<Rightarrow> string option \<Rightarrow> string option" where
  "iteration_of_row row cur =
     (case cell_at row 0 of
        Str s \<Rightarrow> if s \<noteq> [] \<and> startsWith s ''PI''
                 then Some (replace_prefix ''PI'' (replace_prefix ''PI20'' s)) else cur
      | _ \<Rightarrow> cur)"

definition process_row ::
    "(rat \<Rightarrow> string) \<Rightarrow> cell list \<Rightarrow> cell list \<Rightarrow> parse_state \<Rightarrow> parse_state" where
  "process_row numToString membersList row st =
     (if row = [] then st
      else
        (let cur = iteration_of_row row (currentIteration st)
         in case cur of
              Some it \<Rightarrow>
                if it \<noteq> [] \<and> cell_at row 1 = Str ''CAPA''
                then \<lparr>currentIteration = cur,
                      capacityMap = capa_row numToString membersList row it (capacityMap st)\<rparr>
                else st\<lparr>currentIteration := cur\<rparr>
            | None \<Rightarrow> st\<lparr>currentIteration := cur\<rparr>))"

definition parse_grid :: "(rat \<Rightarrow> string) \<Rightarrow> cell list list \<Rightarrow> baseline option" where
  "parse_grid numToString data =
     (case data of
        [] \<Rightarrow> None
      | row0 # _ \<Rightarrow>
          (let membersList = membersList_of row0;
               st0 = \<lparr>currentIteration = None,
                      capacityMap = init_capacityMap numToString membersList\<rparr>;
               st = fold (process_row numToString membersList) data st0
           in Some \<lparr>baseline_members = membersList, baseline_capacity = capacityMap st\<rparr>))"

text \<open>
  The body of the \<^verbatim>\<open>try\<close> block: it returns null when no candidate file exists or the
  grid is empty, and it throws when reading the file throws.
\<close>

definition read_capacity ::
    "(rat \<Rightarrow> string) \<Rightarrow> directory \<Rightarrow> string \<Rightarrow> js_error + baseline option" where
  "read_capacity numToString dir piName =
     (case find (\<lambda>name. dir name \<noteq> None) (possibleFilenames piName) of
        None \<Rightarrow> Inr None
      | Some filePath \<Rightarrow>
          (case dir filePath of
             None \<Rightarrow> Inr None
           | Some Unreadable \<Rightarrow> Inl TypeError
           | Some (Sheet data) \<Rightarrow> Inr (parse_grid numToString data)))"

definition getCapacityFromExcel ::
    "(rat \<Rightarrow> string) \<Rightarrow> directory \<Rightarrow> string \<Rightarrow> baseline option" where
  "getCapacityFromExcel numToString dir piName =
     (case read_capacity numToString dir piName of Inl e \<Rightarrow> None | Inr r \<Rightarrow> r)"

section \<open>The handler of GET /api/capacity\<close>

text \<open>
  The comparison of member names, \<^verbatim>\<open>a.name.localeCompare(b.name)\<close>, depends on the
  locale of the process; it is a parameter, a comparator on strings.
  \<^verbatim>\<open>Array.from(iterations).sort()\<close> orders by code units. \<^verbatim>\<open>Object.values(members)\<close>
  is read in insertion order; JavaScript lists names that are array indices first, which
  changes the sorted result only between names that the comparator holds equal.
\<close>

text \<open>
  In an English locale \<^verbatim>\<open>localeCompare\<close> is the collation of the root locale. On names
  of ASCII letters, digits and spaces it compares the names with upper case folded to lower
  case, a space before the digits and the digits before the letters; names that are equal
  up to case are ordered by the first position where the case differs, lower case first.
  \<open>root_collation\<close> is this comparator; on other characters it orders by character code,
  which the collation does not, so it stands for \<^verbatim>\<open>localeCompare\<close> on
  \<open>plain_name\<close>s only.
\<close>

definition is_upper :: "char \<Rightarrow> bool" where
  "is_upper c = (CHR ''A'' \<le> c \<and> c \<le> CHR ''Z'')"

definition to_lower :: "char \<Rightarrow> char" where
  "to_lower c = (if is_upper c then char_of (of_char c + (32::nat)) else c)"

definition collation_key :: "string \<Rightarrow> string \<times> nat list" where
  "collation_key s = (map to_lower s, map (\<lambda>c. if is_upper c then 1 else 0) s)"

definition root_collation :: "string comparator" where
  "root_collation = key collation_key default"

definition plain_char :: "char \<Rightarrow> bool" where
  "plain_char c =
     (c = CHR '' '' \<or> (CHR ''0'' \<le> c \<and> c \<le> CHR ''9'')
      \<or> (CHR ''a'' \<le> c \<and> c \<le> CHR ''z'') \<or> is_upper c)"

definition plain_name :: "string \<Rightarrow> bool" where
  "plain_name s = list_all plain_char s"

record report =
  report_pi :: string
  report_iterations :: "string list"
  report_members :: "member list"
  report_baselineCapacity :: "baseline option"

datatype http_response = Json report | Failure nat string

text \<open>The part of the handler after the loop: aggregation, sorting, baseline, response.\<close>

definition build_report ::
    "string comparator \<Rightarrow> (rat \<Rightarrow> string) \<Rightarrow> directory \<Rightarrow> string \<Rightarrow> issue list
       \<Rightarrow> http_response" where
  "build_report localeCompare numToString dir piName issues =
     (case aggregate issues agg_init of
        Inl e \<Rightarrow> Failure 500 ''Failed to fetch capacity data''
      | Inr st \<Rightarrow>
          Json \<lparr>report_pi = piName,
                report_iterations = sort_key (\<lambda>x. x) (iterations st),
                report_members =
                  Sorting_Algorithms.sort (key member_name localeCompare)
                    (map snd (members st)),
                report_baselineCapacity = getCapacityFromExcel numToString dir piName\<rparr>)"

definition capacity_handler ::
    "string comparator \<Rightarrow> (rat \<Rightarrow> string) \<Rightarrow> directory \<Rightarrow> (string \<Rightarrow> response)
       \<Rightarrow> string option \<Rightarrow> http_response" where
  "capacity_handler localeCompare numToString dir src query_pi =
     (case query_pi of
        None \<Rightarrow> Failure 400 ''PI name is required''
      | Some piName \<Rightarrow>
          if piName = [] then Failure 400 ''PI name is required''
          else
            (case prober piName src of
               Inl e \<Rightarrow> Failure 500 ''Failed to fetch capacity data''
             | Inr ps \<Rightarrow> build_report localeCompare numToString dir piName (allIssues ps)))"

section \<open>The handler of POST /api/capacity/upload\<close>

text \<open>
  The middleware \<^verbatim>\<open>upload.single('file')\<close> runs before the handler and stores a received
  file in \<^verbatim>\<open>example_files\<close> as \<^verbatim>\<open>temp_<originalname>\<close>. What
  \<^verbatim>\<open>fs.renameSync(req.file.path, newPath)\<close> does with the new file name is a parameter,
  \<open>renameTarget\<close>: the name under which the file stands afterwards, or \<open>None\<close> when the
  call throws (a \<open>pi\<close> with a path separator leads to a directory that does not exist, or
  the file system refuses). For a name without path separator in a writable directory it is
  the name itself. When the call throws, the \<^verbatim>\<open>catch\<close> block removes the temp file
  and answers with status 500.
\<close>

record upload_file =
  originalname :: string
  content :: xlsx_file

record upload_request =
  body_pi :: "string option"
  req_file :: "upload_file option"

datatype upload_response = Uploaded string | Rejected nat string

definition extname :: "string \<Rightarrow> string" where
  "extname p =
     (let ext = rev (takeWhile (\<lambda>c. c \<noteq> CHR ''.'') (rev p))
      in if CHR ''.'' \<notin> set p then []
         else if length ext + 1 = length p then []
         else if p = ''..'' then []
         else CHR ''.'' # ext)"

definition multer_single :: "upload_request \<Rightarrow> directory \<Rightarrow> directory" where
  "multer_single req dir =
     (case req_file req of
        None \<Rightarrow> dir
      | Some f \<Rightarrow> dir(''temp_'' @ originalname f \<mapsto> content f))"

definition upload_handler ::
    "(string \<Rightarrow> string option) \<Rightarrow> upload_request \<Rightarrow> directory
       \<Rightarrow> upload_response \<times> directory" where
  "upload_handler renameTarget req dir0 =
     (let dir = multer_single req dir0
      in case body_pi req of
           None \<Rightarrow> (Rejected 400 ''PI name is required'', dir)
         | Some piName \<Rightarrow>
             if piName = [] then (Rejected 400 ''PI name is required'', dir)
             else
               (case req_file req of
                  None \<Rightarrow> (Rejected 400 ''No file uploaded'', dir)
                | Some f \<Rightarrow>
                    (let path = ''temp_'' @ originalname f
                     in if extname (originalname f) \<noteq> ''.xlsx''
                        then (Rejected 400 ''Only .xlsx files are allowed'', dir(path := None))
                        else
                          (let newFileName = ''PI_CAPA_20'' @ piName @ ''.xlsx''
                           in case renameTarget newFileName of
                                None \<Rightarrow>
                                  (Rejected 500 ''Failed to upload file'', dir(path := None))
                              | Some stored \<Rightarrow>
                                  (Uploaded newFileName,
                                   (dir(path := None))(stored \<mapsto> content f))))))"

section \<open>The Capacity Merger and the classification bands\<close>

text \<open>
  Modelled from the spec: the Capacity Merger of section 4.4. The sources hold the server
  only; the code that merges planned and baseline values and colours the cells is not among
  them. For every (member, iteration) pair of the planned data the merger looks the baseline
  up by member name and iteration name and substitutes 80 hours (288000 seconds) when there
  is none.
\<close>

definition DEFAULT_BASELINE :: rat where
  "DEFAULT_BASELINE = 288000"

definition baseline_lookup :: "baseline option \<Rightarrow> string \<Rightarrow> string \<Rightarrow> rat option" where
  "baseline_lookup b memberName iterationName =
     (case b of
        None \<Rightarrow> None
      | Some bl \<Rightarrow>
          (case map_of (baseline_capacity bl) memberName of
             None \<Rightarrow> None
           | Some inner \<Rightarrow> map_of inner iterationName))"

definition baseline_or_default :: "baseline option \<Rightarrow> string \<Rightarrow> string \<Rightarrow> rat" where
  "baseline_or_default b memberName iterationName =
     (case baseline_lookup b memberName iterationName of
        None \<Rightarrow> DEFAULT_BASELINE
      | Some v \<Rightarrow> v)"

text \<open>
  Modelled from the spec: the classification of section 4.4. The ratio is
  \<open>planned / baseline\<close>; with a baseline of 0 it is treated as 0, and the cell is
  over capacity (the band \<open>Red\<close>) when something is planned and within capacity otherwise.
\<close>

datatype band = Red | Yellow | Normal

definition ratio :: "int \<Rightarrow> rat \<Rightarrow> rat" where
  "ratio planned base = (if base = 0 then 0 else of_int planned / base)"

definition classify :: "int \<Rightarrow> rat \<Rightarrow> band" where
  "classify planned base =
     (if base = 0 then (if planned > 0 then Red else Normal)
      else if ratio planned base > 105 / 100 then Red
      else if ratio planned base > 1 then Yellow
      else Normal)"

text \<open>
  Modelled from the spec: the merged view of section 3, one entry per (member, iteration)
  pair of the planned data with its planned seconds, its baseline or the default, and the
  band.
\<close>

record merged_entry =
  entry_member :: string
  entry_iteration :: string
  entry_planned :: int
  entry_baseline :: rat
  entry_band :: band

definition merge_member :: "baseline option \<Rightarrow> member \<Rightarrow> merged_entry list" where
  "merge_member b m =
     map (\<lambda>(iterationName, planned).
            \<lparr>entry_member = member_name m, entry_iteration = iterationName,
             entry_planned = planned,
             entry_baseline = baseline_or_default b (member_name m) iterationName,
             entry_band = classify planned (baseline_or_default b (member_name m) iterationName)\<rparr>)
         (member_capacity m)"

definition merge_capacity :: "member list \<Rightarrow> baseline option \<Rightarrow> merged_entry list" where
  "merge_capacity planned b = concat (map (merge_member b) planned)"

section \<open>Lemmas about iteration names\<close>

lemma of_char_digit: "d < 10 \<Longrightarrow> (of_char (digit_char d) :: nat) = 48 + d"
  by (simp add: digit_char_def)

lemma digit_char_inj: "a < 10 \<Longrightarrow> b < 10 \<Longrightarrow> digit_char a = digit_char b \<Longrightarrow> a = b"
  by (metis of_char_digit add_left_cancel)

lemma digit_char_0: "digit_char 0 = CHR ''0''"
  by code_simp

lemma String_of_nat_nonempty: "String_of_nat n \<noteq> []"
  by (subst String_of_nat.simps) simp

lemma String_of_nat_inj: "String_of_nat m = String_of_nat n \<Longrightarrow> m = n"
proof (induction m arbitrary: n rule: String_of_nat.induct)
  case (1 m)
  show ?case
  proof (cases "m < 10")
    case True
    then have m: "String_of_nat m = [digit_char m]" by (subst String_of_nat.simps) simp
    show ?thesis
    proof (cases "n < 10")
      case n: True
      then have "String_of_nat n = [digit_char n]" by (subst String_of_nat.simps) simp
      with m "1.prems" True n show ?thesis by (simp add: digit_char_inj)
    next
      case n: False
      then have "String_of_nat n = String_of_nat (n div 10) @ [digit_char (n mod 10)]"
        by (subst String_of_nat.simps) simp
      with m "1.prems" String_of_nat_nonempty[of "n div 10"] show ?thesis by (cases "String_of_nat (n div 10)") auto
    qed
  next
    case False
    then have m: "String_of_nat m = String_of_nat (m div 10) @ [digit_char (m mod 10)]"
      by (subst String_of_nat.simps) simp
    show ?thesis
    proof (cases "n < 10")
      case n: True
      then have "String_of_nat n = [digit_char n]" by (subst String_of_nat.simps) simp
      with m "1.prems" String_of_nat_nonempty[of "m div 10"] show ?thesis by (cases "String_of_nat (m div 10)") auto
    next
      case n: False
      then have "String_of_nat n = String_of_nat (n div 10) @ [digit_char (n mod 10)]"
        by (subst String_of_nat.simps) simp
      with m "1.prems" have a: "String_of_nat (m div 10) = String_of_nat (n div 10)"
        and b: "digit_char (m mod 10) = digit_char (n mod 10)" by auto
      from "1.IH"[OF False a] have "m div 10 = n div 10" .
      moreover from b have "m mod 10 = n mod 10" by (intro digit_char_inj) auto
      ultimately show ?thesis by (metis div_mult_mod_eq)
    qed
  qed
qed

lemma hd_String_of_nat: "0 < n \<Longrightarrow> hd (String_of_nat n) \<noteq> CHR ''0''"
proof (induction n rule: String_of_nat.induct)
  case (1 n)
  show ?case
  proof (cases "n < 10")
    case True
    then have "String_of_nat n = [digit_char n]" by (subst String_of_nat.simps) simp
    moreover have "digit_char n \<noteq> digit_char 0" using digit_char_inj[of n 0] True "1.prems" by auto
    ultimately show ?thesis by (simp add: digit_char_0)
  next
    case False
    then have "String_of_nat n = String_of_nat (n div 10) @ [digit_char (n mod 10)]"
      by (subst String_of_nat.simps) simp
    moreover have "hd (String_of_nat (n div 10)) \<noteq> CHR ''0''" using "1.IH" False by simp
    ultimately show ?thesis using String_of_nat_nonempty[of "n div 10"] by simp
  qed
qed

lemma padStart2_small: "n < 10 \<Longrightarrow> padStart 2 CHR ''0'' (String_of_nat n) = [CHR ''0'', digit_char n]"
  by (subst String_of_nat.simps) (simp add: padStart_def)

lemma length_String_of_nat_ge2: "10 \<le> n \<Longrightarrow> 2 \<le> length (String_of_nat n)"
  using String_of_nat_nonempty[of "n div 10"]
  by (subst String_of_nat.simps) (cases "String_of_nat (n div 10)"; simp)

lemma padStart2_big: "10 \<le> n \<Longrightarrow> padStart 2 CHR ''0'' (String_of_nat n) = String_of_nat n"
  using length_String_of_nat_ge2[of n] by (simp add: padStart_def)

lemma padStart2_inj:
  "padStart 2 CHR ''0'' (String_of_nat m) = padStart 2 CHR ''0'' (String_of_nat n) \<Longrightarrow> m = n"
proof -
  assume eq: "padStart 2 CHR ''0'' (String_of_nat m) = padStart 2 CHR ''0'' (String_of_nat n)"
  have mixed: False if "a < 10" "10 \<le> b"
     "padStart 2 CHR ''0'' (String_of_nat a) = padStart 2 CHR ''0'' (String_of_nat b)" for a b
  proof -
    from that have "String_of_nat b = [CHR ''0'', digit_char a]"
      by (simp add: padStart2_small padStart2_big)
    then have "hd (String_of_nat b) = CHR ''0''" by simp
    with hd_String_of_nat[of b] that show False by simp
  qed
  consider "m < 10" "n < 10" | "m < 10" "10 \<le> n" | "10 \<le> m" "n < 10" | "10 \<le> m" "10 \<le> n"
    by linarith
  then show ?thesis
  proof cases
    case 1 with eq show ?thesis by (simp add: padStart2_small digit_char_inj)
  next
    case 2 with eq mixed[of m n] show ?thesis by simp
  next
    case 3 with eq mixed[of n m] show ?thesis by simp
  next
    case 4 with eq show ?thesis by (simp add: padStart2_big String_of_nat_inj)
  qed
qed

lemma sprint_name_inj: "sprint_name p m = sprint_name p n \<longleftrightarrow> m = n"
  by (auto simp: sprint_name_def dest: padStart2_inj)

lemma pad_sorted_51:
  "sorted_wrt (<) (map (\<lambda>n. padStart 2 CHR ''0'' (String_of_nat n)) [0..<51])"
  by code_simp

lemma pad_mono:
  assumes "m < n" "n < 51"
  shows "padStart 2 CHR ''0'' (String_of_nat m) < padStart 2 CHR ''0'' (String_of_nat n)"
proof -
  let ?f = "\<lambda>n. padStart 2 CHR ''0'' (String_of_nat n)"
  have "map ?f [0..<51] ! m < map ?f [0..<51] ! n"
    using assms by (intro sorted_wrt_nth_less[OF pad_sorted_51]) simp_all
  with assms show ?thesis by simp
qed

lemma append_less_cancel: "(p @ x < p @ y) = (x < (y :: string))"
  by (induction p) (simp_all)

lemma sprint_name_mono: "m < n \<Longrightarrow> n < 51 \<Longrightarrow> sprint_name p m < sprint_name p n"
  by (simp add: sprint_name_def append_less_cancel pad_mono)

section \<open>Lemmas about the probing loop\<close>

lemma probe_loop_stops:
  assumes "iterationNum s = i" "i \<le> n" "n \<le> 50"
    and "\<forall>m. i \<le> m \<and> m < n \<longrightarrow> (\<exists>iss. src (sprint_name p m) = HttpOk iss \<and> iss \<noteq> [])"
    and "src (sprint_name p n) = HttpOk [] \<or> src (sprint_name p n) = HttpError"
  shows "probe_loop p src s =
     s\<lparr>allIssues := allIssues s @ collected p src i n,
       iterationsFound := foldl (\<lambda>fs m. set_add (sprint_name p m) fs) (iterationsFound s) [i..<n],
       iterationNum := n,
       probed := probed s @ map (sprint_name p) [i..<Suc n]\<rparr>"
  using assms
proof (induction "n - i" arbitrary: i s)
  case 0
  then have "i = n" by simp
  with 0 show ?case
    by (subst probe_loop.simps) (auto simp: Let_def collected_def)
next
  case (Suc k)
  then have lt: "i < n" by simp
  with Suc.prems obtain iss where iss: "src (sprint_name p i) = HttpOk iss" "iss \<noteq> []"
    by blast
  let ?s2 = "found_issues (sprint_name p i) iss (s\<lparr>probed := probed s @ [sprint_name p i]\<rparr>)"
  have n2: "iterationNum ?s2 = Suc i" using Suc.prems by (simp add: found_issues_def)
  have IH: "probe_loop p src ?s2 = ?s2\<lparr>allIssues := allIssues ?s2 @ collected p src (Suc i) n,
       iterationsFound := foldl (\<lambda>fs m. set_add (sprint_name p m) fs) (iterationsFound ?s2) [Suc i..<n],
       iterationNum := n,
       probed := probed ?s2 @ map (sprint_name p) [Suc i..<Suc n]\<rparr>"
    using Suc.hyps(2) Suc.prems lt by (intro Suc.hyps(1)[OF _ n2]) auto
  have "probe_loop p src s = probe_loop p src ?s2"
    using iss n2 lt Suc.prems by (subst probe_loop.simps) (simp add: Let_def)
  also note IH
  finally show ?case using lt iss Suc.prems
    by (simp add: found_issues_def collected_def upt_conv_Cons issues_of_def)
qed

lemma foldl_set_add_names:
  "foldl (\<lambda>fs m. set_add (sprint_name p m) fs) [] [i..<n] = map (sprint_name p) [i..<n]"
proof (induction n)
  case 0
  then show ?case by simp
next
  case (Suc n)
  show ?case
  proof (cases "i \<le> n")
    case True
    have "sprint_name p n \<notin> set (map (sprint_name p) [i..<n])"
      by (auto simp: sprint_name_inj)
    with True Suc show ?thesis by (simp add: set_add_def)
  next
    case False
    then show ?thesis by simp
  qed
qed

lemma prober_stops:
  assumes "1 \<le> n" "n \<le> 50"
    and "\<forall>m\<in>{1..<n}. issues_of (src (sprint_name p m)) \<noteq> []"
    and "src (sprint_name p n) = HttpOk [] \<or> src (sprint_name p n) = HttpError"
  shows "prober p src = Inr \<lparr>allIssues = collected p src 1 n,
            iterationsFound = map (sprint_name p) [1..<n],
            iterationNum = n,
            probed = map (sprint_name p) [1..<Suc n],
            thrown = None\<rparr>"
proof -
  have ne: "\<forall>m. 1 \<le> m \<and> m < n \<longrightarrow> (\<exists>iss. src (sprint_name p m) = HttpOk iss \<and> iss \<noteq> [])"
  proof (intro allI impI)
    fix m assume "1 \<le> m \<and> m < n"
    with assms(3) have "issues_of (src (sprint_name p m)) \<noteq> []" by simp
    then show "\<exists>iss. src (sprint_name p m) = HttpOk iss \<and> iss \<noteq> []"
      by (cases "src (sprint_name p m)") (simp_all add: issues_of_def)
  qed
  have "probe_loop p src probe_init = probe_init\<lparr>allIssues := allIssues probe_init @ collected p src 1 n,
       iterationsFound := foldl (\<lambda>fs m. set_add (sprint_name p m) fs) (iterationsFound probe_init) [1..<n],
       iterationNum := n,
       probed := probed probe_init @ map (sprint_name p) [1..<Suc n]\<rparr>"
    by (rule probe_loop_stops[OF _ assms(1,2) ne assms(4)]) (simp add: probe_init_def)
  then show ?thesis
    by (simp add: prober_def probe_init_def foldl_set_add_names)
qed

lemma probe_loop_trace:
  "\<exists>k. iterationNum s \<le> k \<and> k \<le> max (iterationNum s) 50 \<and>
       probed (probe_loop p src s) = probed s @ map (sprint_name p) [iterationNum s..<Suc k]"
proof (induction p src s rule: probe_loop.induct)
  case (1 p src s)
  let ?nm = "sprint_name p (iterationNum s)"
  let ?s1 = "s\<lparr>probed := probed s @ [?nm]\<rparr>"
  show ?case
  proof (cases "src ?nm")
    case FetchThrows
    then have "probed (probe_loop p src s) = probed s @ [?nm]"
      by (subst probe_loop.simps) (simp add: Let_def)
    then show ?thesis by (intro exI[of _ "iterationNum s"]) simp
  next
    case HttpErrorNull
    then have "probed (probe_loop p src s) = probed s @ [?nm]"
      by (subst probe_loop.simps) (simp add: Let_def)
    then show ?thesis by (intro exI[of _ "iterationNum s"]) simp
  next
    case HttpOkNull
    then have "probed (probe_loop p src s) = probed s @ [?nm]"
      by (subst probe_loop.simps) (simp add: Let_def)
    then show ?thesis by (intro exI[of _ "iterationNum s"]) simp
  next
    case HttpError
    then have "probed (probe_loop p src s) = probed s @ [?nm]"
      by (subst probe_loop.simps) (simp add: Let_def)
    then show ?thesis by (intro exI[of _ "iterationNum s"]) simp
  next
    case (HttpOk iss)
    show ?thesis
    proof (cases "iss = []")
      case True
      with HttpOk have "probed (probe_loop p src s) = probed s @ [?nm]"
        by (subst probe_loop.simps) (simp add: Let_def)
      then show ?thesis by (intro exI[of _ "iterationNum s"]) simp
    next
      case ne: False
      let ?s2 = "found_issues ?nm iss ?s1"
      have s2: "iterationNum ?s2 = Suc (iterationNum s)" "probed ?s2 = probed s @ [?nm]"
        by (simp_all add: found_issues_def)
      show ?thesis
      proof (cases "50 < iterationNum ?s2")
        case True
        with HttpOk ne have "probe_loop p src s = ?s2"
          by (subst probe_loop.simps) (simp add: Let_def)
        with s2 show ?thesis by (intro exI[of _ "iterationNum s"]) simp
      next
        case False
        with HttpOk ne have eq: "probe_loop p src s = probe_loop p src ?s2"
          by (subst probe_loop.simps) (simp add: Let_def)
        from "1.IH"[OF refl refl HttpOk ne False]
        obtain k where k: "iterationNum ?s2 \<le> k" "k \<le> max (iterationNum ?s2) 50"
          "probed (probe_loop p src ?s2) = probed ?s2 @ map (sprint_name p) [iterationNum ?s2..<Suc k]"
          by blast
        from k s2 False have "iterationNum s \<le> k" "k \<le> max (iterationNum s) 50" by auto
        moreover from k s2 eq have "probed (probe_loop p src s) = probed s @ map (sprint_name p) [iterationNum s..<Suc k]"
          by (simp add: upt_conv_Cons)
        ultimately show ?thesis by blast
      qed
    qed
  qed
qed

lemma probe_loop_ceiling:
  assumes "iterationNum s = i" "i \<le> 50"
    and "\<forall>m. i \<le> m \<and> m \<le> 50 \<longrightarrow> issues_of (src (sprint_name p m)) \<noteq> []"
  shows "probed (probe_loop p src s) = probed s @ map (sprint_name p) [i..<51]"
  using assms
proof (induction "50 - i" arbitrary: i s)
  case 0
  then have i: "i = 50" by simp
  from 0 i have "issues_of (src (sprint_name p 50)) \<noteq> []" by simp
  then obtain iss where "src (sprint_name p 50) = HttpOk iss" "iss \<noteq> []"
    by (cases "src (sprint_name p 50)") (simp_all add: issues_of_def)
  with 0 i show ?case
    by (subst probe_loop.simps) (simp add: Let_def found_issues_def)
next
  case (Suc k)
  then have lt: "i < 50" by simp
  from Suc.prems have "issues_of (src (sprint_name p i)) \<noteq> []" by simp
  then obtain iss where iss: "src (sprint_name p i) = HttpOk iss" "iss \<noteq> []"
    by (cases "src (sprint_name p i)") (simp_all add: issues_of_def)
  let ?s2 = "found_issues (sprint_name p i) iss (s\<lparr>probed := probed s @ [sprint_name p i]\<rparr>)"
  have n2: "iterationNum ?s2 = Suc i" using Suc.prems by (simp add: found_issues_def)
  have "probe_loop p src s = probe_loop p src ?s2"
    using iss n2 lt Suc.prems by (subst probe_loop.simps) (simp add: Let_def)
  moreover have "probed (probe_loop p src ?s2) = probed ?s2 @ map (sprint_name p) [Suc i..<51]"
    using Suc.hyps(2) Suc.prems lt by (intro Suc.hyps(1)[OF _ n2]) auto
  ultimately show ?case using lt by (simp add: found_issues_def upt_conv_Cons)
qed

section \<open>Lemmas about the iterations of a report\<close>

lemma probe_loop_tags:
  assumes "1 \<le> iterationNum s" "iterationNum s \<le> 50"
    and "\<forall>i\<in>set (allIssues s). tagged_in_range p i"
  shows "\<forall>i\<in>set (allIssues (probe_loop p src s)). tagged_in_range p i"
  using assms
proof (induction p src s rule: probe_loop.induct)
  case (1 p src s)
  let ?nm = "sprint_name p (iterationNum s)"
  let ?s1 = "s\<lparr>probed := probed s @ [?nm]\<rparr>"
  show ?case
  proof (cases "src ?nm")
    case FetchThrows
    with "1.prems" show ?thesis by (subst probe_loop.simps) (simp add: Let_def)
  next
    case HttpErrorNull
    with "1.prems" show ?thesis by (subst probe_loop.simps) (simp add: Let_def)
  next
    case HttpOkNull
    with "1.prems" show ?thesis by (subst probe_loop.simps) (simp add: Let_def)
  next
    case HttpError
    with "1.prems" show ?thesis by (subst probe_loop.simps) (simp add: Let_def)
  next
    case (HttpOk iss)
    let ?s2 = "found_issues ?nm iss ?s1"
    have tags2: "\<forall>i\<in>set (allIssues ?s2). tagged_in_range p i"
      using "1.prems" by (auto simp: found_issues_def tag_issue_def tagged_in_range_def)
    have n2: "iterationNum ?s2 = Suc (iterationNum s)" by (simp add: found_issues_def)
    show ?thesis
    proof (cases "iss = []")
      case True
      with HttpOk "1.prems" show ?thesis by (subst probe_loop.simps) (simp add: Let_def)
    next
      case ne: False
      show ?thesis
      proof (cases "50 < iterationNum ?s2")
        case True
        with HttpOk ne have "probe_loop p src s = ?s2"
          by (subst probe_loop.simps) (simp add: Let_def)
        with tags2 show ?thesis by simp
      next
        case False
        with HttpOk ne have eq: "probe_loop p src s = probe_loop p src ?s2"
          by (subst probe_loop.simps) (simp add: Let_def)
        have "\<forall>i\<in>set (allIssues (probe_loop p src ?s2)). tagged_in_range p i"
          using False n2 tags2 by (intro "1.IH"[OF refl refl HttpOk ne False]) simp_all
        with eq show ?thesis by simp
      qed
    qed
  qed
qed

lemma prober_tags:
  assumes "prober p src = Inr ps"
  shows "\<forall>i\<in>set (allIssues ps). tagged_in_range p i"
proof -
  have "\<forall>i\<in>set (allIssues (probe_loop p src probe_init)). tagged_in_range p i"
    by (rule probe_loop_tags) (simp_all add: probe_init_def)
  with assms show ?thesis
    by (auto simp: prober_def Let_def split: option.splits)
qed

lemma aggregate_issue_iterations:
  assumes "aggregate_issue i st = Inr st'"
  shows "set (iterations st') \<subseteq> set (iterations st) \<union> {t. sprintName_tag i = Some t}"
    and "distinct (iterations st) \<Longrightarrow> distinct (iterations st')"
  using assms
  by (auto simp: aggregate_issue_def Let_def set_add_def
           split: option.splits if_splits js_lookup.splits)

lemma aggregate_iterations:
  assumes "aggregate issues st = Inr st'"
  shows "set (iterations st') \<subseteq> set (iterations st) \<union> {t. \<exists>i\<in>set issues. sprintName_tag i = Some t}
       \<and> (distinct (iterations st) \<longrightarrow> distinct (iterations st'))"
  using assms
proof (induction issues arbitrary: st)
  case Nil
  then show ?case by simp
next
  case (Cons i rest)
  then obtain st1 where a: "aggregate_issue i st = Inr st1" and b: "aggregate rest st1 = Inr st'"
    by (auto split: sum.splits)
  from Cons.IH[OF b] aggregate_issue_iterations[OF a] show ?case by auto
qed

lemma sorted_names_numeric:
  assumes "distinct xs" and "set xs \<subseteq> sprint_name p ` {1..50}"
  shows "\<exists>ns. sorted_wrt (<) ns \<and> set ns \<subseteq> {1..50} \<and> sort_key (\<lambda>x. x) xs = map (sprint_name p) ns"
proof -
  let ?N = "{m \<in> {1..50}. sprint_name p m \<in> set xs}"
  let ?ns = "sorted_list_of_set ?N"
  have fin: "finite ?N" by simp
  have sns: "sorted_wrt (<) ?ns" by (simp add: strict_sorted_iff)
  have setns: "set ?ns = ?N" using fin by simp
  have "sorted_wrt (<) (map (sprint_name p) ?ns)"
    unfolding sorted_wrt_map
  proof (rule sorted_wrt_mono_rel[OF _ sns])
    fix a b assume "a \<in> set ?ns" "b \<in> set ?ns" "a < b"
    with setns show "sprint_name p a < sprint_name p b"
      by (intro sprint_name_mono) auto
  qed
  moreover have "sorted_wrt (<) (sort_key (\<lambda>x. x) xs)"
    using assms(1) sorted_sort_key[of "\<lambda>x. x" xs] by (simp add: strict_sorted_iff)
  moreover have "set (map (sprint_name p) ?ns) = set (sort_key (\<lambda>x. x) xs)"
    using assms(2) setns by auto
  ultimately have "sort_key (\<lambda>x. x) xs = map (sprint_name p) ?ns"
    by (metis strict_sorted_equal)
  with sns setns show ?thesis by blast
qed

section \<open>Lemmas about the aggregation\<close>

lemma map_of_js_set: "map_of (js_set obj k v) = (map_of obj)(k \<mapsto> v)"
  by (induction obj k v rule: js_set.induct) auto

lemma map_of_js_assign:
  "k \<noteq> ''__proto__'' \<Longrightarrow> map_of (js_assign obj k v) = (map_of obj)(k \<mapsto> v)"
  by (simp add: js_assign_def map_of_js_set)

lemma proto_in_keys: "''__proto__'' \<in> set object_prototype_keys"
  by (simp add: object_prototype_keys_def)

lemma last_String_of_nat: "last (String_of_nat n) = digit_char (n mod 10)"
  by (subst String_of_nat.simps) simp

lemma last_sprint_name: "last (sprint_name p n) = digit_char (n mod 10)"
  using String_of_nat_nonempty[of n]
  by (simp add: sprint_name_def padStart_def last_String_of_nat)

lemma digit_char_not_underscore: "d < 10 \<Longrightarrow> digit_char d \<noteq> CHR ''_''"
  using of_char_digit[of d] by (auto simp del: of_char_eq_iff)

lemma sprint_name_not_proto: "sprint_name p n \<noteq> ''__proto__''"
proof
  assume "sprint_name p n = ''__proto__''"
  then have "last (sprint_name p n) = CHR ''_''" by simp
  with digit_char_not_underscore[of "n mod 10"] show False
    by (simp add: last_sprint_name)
qed

lemma sprint_name_nonempty: "sprint_name p n \<noteq> []"
  by (simp add: sprint_name_def)

lemma planned_lookup_step:
  assumes "n \<notin> set object_prototype_keys" "t \<noteq> ''__proto__''" "t \<noteq> []"
    and "assignee (issue_fields i) = Some a" "assigneeName_of a = n" "sprintName_tag i = Some t"
  shows "\<exists>st'. aggregate_issue i st = Inr st' \<and>
           (\<forall>m s. planned_lookup st' m s =
              (if m = n \<and> s = t
               then Some ((case planned_lookup st n t of None \<Rightarrow> 0 | Some v \<Rightarrow> v)
                          + remainingEstimate_of i)
               else planned_lookup st m s))"
proof -
  from assms(1) have np: "n \<noteq> ''__proto__''" using proto_in_keys by auto
  show ?thesis
  proof (cases "map_of (members st) n")
    case None
    with assms np show ?thesis
      by (auto simp: aggregate_issue_def Let_def js_get_def planned_lookup_def add_estimate_def
                     map_of_js_assign)
  next
    case (Some mem)
    with assms np show ?thesis
      by (auto simp: aggregate_issue_def Let_def js_get_def planned_lookup_def add_estimate_def
                     map_of_js_assign split: option.splits)
  qed
qed

lemma planned_total_none:
  "\<not> (\<exists>i\<in>set done. attributed m s i) \<Longrightarrow> planned_total done m s = 0"
proof -
  assume "\<not> (\<exists>i\<in>set done. attributed m s i)"
  then have "filter (attributed m s) done = []" by (simp add: filter_empty_conv)
  then show ?thesis by (simp add: planned_total_def)
qed

lemma aggregate_issue_totals:
  assumes inv: "\<forall>m s. planned_lookup st m s =
              (if \<exists>j\<in>set done. attributed m s j then Some (planned_total done m s) else None)"
    and ok: "aggregable i" and tag: "tagged_in_range p i"
  shows "\<exists>st'. aggregate_issue i st = Inr st' \<and>
           (\<forall>m s. planned_lookup st' m s =
              (if \<exists>j\<in>set (done @ [i]). attributed m s j
               then Some (planned_total (done @ [i]) m s) else None))"
proof (cases "assignee (issue_fields i)")
  case None
  then have "aggregate_issue i st = Inr st" by (simp add: aggregate_issue_def)
  moreover from None have "\<And>m s. \<not> attributed m s i" by (simp add: attributed_def)
  ultimately show ?thesis using inv by (simp add: planned_total_def)
next
  case (Some a)
  from tag obtain k where t: "sprintName_tag i = Some (sprint_name p k)"
    by (auto simp: tagged_in_range_def split: option.splits)
  let ?n = "assigneeName_of a" and ?t = "sprint_name p k"
  from ok Some have n: "?n \<notin> set object_prototype_keys" by (simp add: aggregable_def)
  from planned_lookup_step[OF n sprint_name_not_proto sprint_name_nonempty Some refl t, of st]
  obtain st' where st': "aggregate_issue i st = Inr st'"
    and lk: "\<And>m s. planned_lookup st' m s =
              (if m = ?n \<and> s = ?t
               then Some ((case planned_lookup st ?n ?t of None \<Rightarrow> 0 | Some v \<Rightarrow> v)
                          + remainingEstimate_of i)
               else planned_lookup st m s)" by blast
  have att: "\<And>m s. attributed m s i \<longleftrightarrow> m = ?n \<and> s = ?t"
    using Some t by (auto simp: attributed_def)
  have cur: "(case planned_lookup st ?n ?t of None \<Rightarrow> 0 | Some v \<Rightarrow> v) = planned_total done ?n ?t"
    using inv planned_total_none[of "done" ?n ?t] by auto
  have "planned_lookup st' m s =
              (if \<exists>j\<in>set (done @ [i]). attributed m s j
               then Some (planned_total (done @ [i]) m s) else None)" for m s
  proof (cases "m = ?n \<and> s = ?t")
    case True
    then show ?thesis using lk[of m s] cur att by (simp add: planned_total_def)
  next
    case False
    then have "\<not> attributed m s i" using att by simp
    then show ?thesis using lk[of m s] False inv by (simp add: planned_total_def)
  qed
  with st' show ?thesis by blast
qed

lemma aggregate_totals_from:
  assumes "\<forall>m s. planned_lookup st m s =
              (if \<exists>j\<in>set done. attributed m s j then Some (planned_total done m s) else None)"
    and "\<forall>i\<in>set issues. aggregable i \<and> tagged_in_range p i"
  shows "\<exists>st'. aggregate issues st = Inr st' \<and>
           (\<forall>m s. planned_lookup st' m s =
              (if \<exists>j\<in>set (done @ issues). attributed m s j
               then Some (planned_total (done @ issues) m s) else None))"
  using assms
proof (induction issues arbitrary: st "done")
  case Nil
  then show ?case by simp
next
  case (Cons i rest)
  from Cons.prems(2) have "aggregable i" "tagged_in_range p i" by simp_all
  from aggregate_issue_totals[OF Cons.prems(1) this]
  obtain st1 where a: "aggregate_issue i st = Inr st1"
    and inv1: "\<forall>m s. planned_lookup st1 m s =
              (if \<exists>j\<in>set (done @ [i]). attributed m s j
               then Some (planned_total (done @ [i]) m s) else None)" by blast
  from Cons.prems(2) have rest: "\<forall>i\<in>set rest. aggregable i \<and> tagged_in_range p i" by simp
  from Cons.IH[OF inv1 rest] obtain st' where b: "aggregate rest st1 = Inr st'"
    and inv': "\<forall>m s. planned_lookup st' m s =
              (if \<exists>j\<in>set (done @ i # rest). attributed m s j
               then Some (planned_total (done @ i # rest) m s) else None)" by auto
  from a b have "aggregate (i # rest) st = Inr st'" by simp
  with inv' show ?case by blast
qed

section \<open>The Iteration Prober\<close>

text \<open>
  C1. The loop queries the names \<open>pi_01\<close>, \<open>pi_02\<close>, ... in order. When the issue source
  answers every iteration before \<open>n\<close> with at least one issue and iteration \<open>n\<close> with none,
  the prober returns normally, has queried exactly the names of \<open>1\<close> to \<open>n\<close>, has found
  exactly the \<open>n - 1\<close> iterations before \<open>n\<close>, holds their issues, each tagged with the name
  it was queried under, and has queried no later sequence number.
  For \<open>n = 6\<close>: five iterations, and \<open>pi_07\<close> is not queried.
\<close>

theorem prober_stops_at_empty_iteration:
  assumes "1 \<le> n" and "n \<le> 50"
    and "\<forall>m\<in>{1..<n}. issues_of (src (sprint_name piName m)) \<noteq> []"
    and "src (sprint_name piName n) = HttpOk []"
  shows "\<exists>s. prober piName src = Inr s
           \<and> probed s = map (sprint_name piName) [1..<Suc n]
           \<and> iterationsFound s = map (sprint_name piName) [1..<n]
           \<and> length (iterationsFound s) = n - 1
           \<and> allIssues s = collected piName src 1 n
           \<and> (\<forall>k. n < k \<longrightarrow> sprint_name piName k \<notin> set (probed s))"
proof -
  from assms(4) have "src (sprint_name piName n) = HttpOk [] \<or> src (sprint_name piName n) = HttpError"
    by simp
  from prober_stops[OF assms(1,2,3) this] show ?thesis
    by (auto simp: sprint_name_inj)
qed

theorem prober_stops_at_empty_iteration_witness:
  "\<exists>s. prober ''PI''
         (\<lambda>nm. if nm = ''PI_06'' then HttpOk []
               else HttpOk [\<lparr>issue_fields = \<lparr>assignee = None, timeestimate = None\<rparr>,
                             sprintName_tag = None\<rparr>]) = Inr s
      \<and> probed s = [''PI_01'', ''PI_02'', ''PI_03'', ''PI_04'', ''PI_05'', ''PI_06'']
      \<and> iterationsFound s = [''PI_01'', ''PI_02'', ''PI_03'', ''PI_04'', ''PI_05'']
      \<and> length (iterationsFound s) = 5
      \<and> ''PI_07'' \<notin> set (probed s)"
proof -
  let ?src = "\<lambda>nm. if nm = ''PI_06'' then HttpOk []
               else HttpOk [\<lparr>issue_fields = \<lparr>assignee = None, timeestimate = None\<rparr>,
                             sprintName_tag = None\<rparr>]"
  have h1: "(1::nat) \<le> 6" and h2: "(6::nat) \<le> 50" by simp_all
  have h3: "\<forall>m\<in>{1..<6}. issues_of (?src (sprint_name ''PI'' m)) \<noteq> []" by code_simp
  have h4: "?src (sprint_name ''PI'' 6) = HttpOk []" by code_simp
  have names: "map (sprint_name ''PI'') [1..<Suc 6] = [''PI_01'', ''PI_02'', ''PI_03'', ''PI_04'', ''PI_05'', ''PI_06'']"
     "map (sprint_name ''PI'') [1..<6] = [''PI_01'', ''PI_02'', ''PI_03'', ''PI_04'', ''PI_05'']"
    by code_simp+
  from prober_stops_at_empty_iteration[of 6 ?src "''PI''", OF h1 h2 h3 h4]
  show ?thesis unfolding names by auto
qed

text \<open>
  X5 (a response that is not ok, to C2). When the issue source answers every iteration
  before \<open>n\<close> with at least one issue and the query for iteration \<open>n\<close> comes back not ok
  with a body other than \<^verbatim>\<open>null\<close>, the prober returns normally with what it has
  collected: the \<open>n - 1\<close> iterations before \<open>n\<close> and their tagged issues. The request is
  answered from exactly these issues, as if the range had ended there, and the answer is a
  report whenever no collected issue resolves to a member name that every object inherits.
  For \<open>n = 2\<close>: one iteration.
\<close>

theorem prober_fail_stop:
  assumes "1 \<le> n" and "n \<le> 50"
    and "\<forall>m\<in>{1..<n}. issues_of (src (sprint_name piName m)) \<noteq> []"
    and "src (sprint_name piName n) = HttpError"
    and "piName \<noteq> []"
  shows "(\<exists>s. prober piName src = Inr s
            \<and> probed s = map (sprint_name piName) [1..<Suc n]
            \<and> iterationsFound s = map (sprint_name piName) [1..<n]
            \<and> length (iterationsFound s) = n - 1
            \<and> allIssues s = collected piName src 1 n)
       \<and> capacity_handler localeCompare numToString dir src (Some piName)
           = build_report localeCompare numToString dir piName (collected piName src 1 n)
       \<and> ((\<forall>i\<in>set (collected piName src 1 n). aggregable i)
            \<longrightarrow> (\<exists>r. capacity_handler localeCompare numToString dir src (Some piName) = Json r))"
proof -
  from assms(4) have "src (sprint_name piName n) = HttpOk [] \<or> src (sprint_name piName n) = HttpError"
    by simp
  from prober_stops[OF assms(1,2,3) this]
  have p: "prober piName src = Inr \<lparr>allIssues = collected piName src 1 n,
            iterationsFound = map (sprint_name piName) [1..<n],
            iterationNum = n,
            probed = map (sprint_name piName) [1..<Suc n],
            thrown = None\<rparr>" .
  with assms(5) have h: "capacity_handler localeCompare numToString dir src (Some piName)
           = build_report localeCompare numToString dir piName (collected piName src 1 n)"
    by (simp add: capacity_handler_def)
  have "\<exists>r. build_report localeCompare numToString dir piName (collected piName src 1 n) = Json r"
    if ok: "\<forall>i\<in>set (collected piName src 1 n). aggregable i"
  proof -
    have inv0: "\<forall>m s. planned_lookup agg_init m s =
              (if \<exists>j\<in>set []. attributed m s j then Some (planned_total [] m s) else None)"
      by (simp add: planned_lookup_def agg_init_def)
    from prober_tags[OF p] ok
    have "\<forall>i\<in>set (collected piName src 1 n). aggregable i \<and> tagged_in_range piName i" by simp
    from aggregate_totals_from[OF inv0 this] obtain st
      where "aggregate (collected piName src 1 n) agg_init = Inr st" by auto
    then show ?thesis by (simp add: build_report_def)
  qed
  with p h show ?thesis by simp
qed

theorem prober_fail_stop_witness:
  "(\<exists>s. prober ''PI''
         (\<lambda>nm. if nm = ''PI_02'' then HttpError
               else HttpOk [\<lparr>issue_fields = \<lparr>assignee = Some \<lparr>displayName = Some ''Bob'', name = None\<rparr>,
                                               timeestimate = Some 3600\<rparr>,
                             sprintName_tag = None\<rparr>]) = Inr s
      \<and> probed s = [''PI_01'', ''PI_02'']
      \<and> iterationsFound s = [''PI_01'']
      \<and> length (iterationsFound s) = 1)
   \<and> capacity_handler default (\<lambda>q. []) (\<lambda>f. None)
         (\<lambda>nm. if nm = ''PI_02'' then HttpError
               else HttpOk [\<lparr>issue_fields = \<lparr>assignee = Some \<lparr>displayName = Some ''Bob'', name = None\<rparr>,
                                               timeestimate = Some 3600\<rparr>,
                             sprintName_tag = None\<rparr>]) (Some ''PI'')
       = Json \<lparr>report_pi = ''PI'', report_iterations = [''PI_01''],
               report_members = [\<lparr>member_name = ''Bob'', member_capacity = [(''PI_01'', 3600)]\<rparr>],
               report_baselineCapacity = None\<rparr>"
proof -
  let ?src = "\<lambda>nm. if nm = ''PI_02'' then HttpError
               else HttpOk [\<lparr>issue_fields = \<lparr>assignee = Some \<lparr>displayName = Some ''Bob'', name = None\<rparr>,
                                               timeestimate = Some 3600\<rparr>,
                             sprintName_tag = None\<rparr>]"
  have h1: "(1::nat) \<le> 2" and h2: "(2::nat) \<le> 50" and h5: "''PI'' \<noteq> []" by simp_all
  have h3: "\<forall>m\<in>{1..<2}. issues_of (?src (sprint_name ''PI'' m)) \<noteq> []" by code_simp
  have h4: "?src (sprint_name ''PI'' 2) = HttpError" by code_simp
  have names: "map (sprint_name ''PI'') [1..<Suc 2] = [''PI_01'', ''PI_02'']"
     "map (sprint_name ''PI'') [1..<2] = [''PI_01'']"
    by code_simp+
  have rep: "build_report default (\<lambda>q. []) (\<lambda>f. None) ''PI'' (collected ''PI'' ?src 1 2)
      = Json \<lparr>report_pi = ''PI'', report_iterations = [''PI_01''],
               report_members = [\<lparr>member_name = ''Bob'', member_capacity = [(''PI_01'', 3600)]\<rparr>],
               report_baselineCapacity = None\<rparr>"
    by code_simp
  from prober_fail_stop[of 2 ?src "''PI''" default "\<lambda>q. []" "\<lambda>f. None", OF h1 h2 h3 h4 h5]
  show ?thesis unfolding names rep by auto
qed

text \<open>
  C10. The loop is a total function. Whatever the issue source answers, the names queried
  are those of the sequence numbers \<open>1\<close> to \<open>k\<close> for some \<open>k\<close> of at most 50; against a
  source that returns issues on every query they are exactly those of \<open>1\<close> to \<open>50\<close>.
\<close>

theorem probing_terminates_within_50:
  "(\<exists>k. 1 \<le> k \<and> k \<le> 50
        \<and> probed (probe_loop piName src probe_init) = map (sprint_name piName) [1..<Suc k])
   \<and> probed (probe_loop piName (\<lambda>nm. HttpOk (i # rest)) probe_init)
        = map (sprint_name piName) [1..<51]"
proof
  from probe_loop_trace[of probe_init piName src]
  show "\<exists>k. 1 \<le> k \<and> k \<le> 50
        \<and> probed (probe_loop piName src probe_init) = map (sprint_name piName) [1..<Suc k]"
    by (simp add: probe_init_def)
next
  have "probed (probe_loop piName (\<lambda>nm. HttpOk (i # rest)) probe_init)
      = probed probe_init @ map (sprint_name piName) [1..<51]"
    by (rule probe_loop_ceiling) (simp_all add: probe_init_def issues_of_def)
  then show "probed (probe_loop piName (\<lambda>nm. HttpOk (i # rest)) probe_init)
        = map (sprint_name piName) [1..<51]"
    by (simp add: probe_init_def)
qed

section \<open>Lemmas about the order of the members\<close>

lemma root_collation_not_greater:
  "compare root_collation x y \<noteq> Greater \<Longrightarrow> map to_lower x \<le> map to_lower y"
proof -
  assume "compare root_collation x y \<noteq> Greater"
  then have "\<not> collation_key y < collation_key x"
    by (simp add: root_collation_def)
  then have "collation_key x \<le> collation_key y" by simp
  then show ?thesis by (auto simp: collation_key_def less_eq_prod_def)
qed

lemma sorted_lower_names:
  assumes agree: "\<forall>x y. plain_name x \<and> plain_name y \<longrightarrow> compare lc x y = compare root_collation x y"
  shows "Sorting_Algorithms.sorted (key member_name lc) ms \<Longrightarrow>
         \<forall>m\<in>set ms. plain_name (member_name m) \<Longrightarrow>
         sorted_wrt (\<le>) (map (\<lambda>m. map to_lower (member_name m)) ms)"
proof (induction ms rule: list.induct)
  case Nil
  then show ?case by simp
next
  case (Cons m ms)
  note s = Cons.prems(1) and pl = Cons.prems(2)
  have tail: "Sorting_Algorithms.sorted (key member_name lc) ms"
    using s by (rule sorted_Cons_imp_sorted)
  have "map to_lower (member_name m) \<le> map to_lower (member_name x)" if "x \<in> set ms" for x
  proof -
    from sorted_Cons_imp_not_less[OF s that]
    have "compare lc (member_name m) (member_name x) \<noteq> Greater" by simp
    moreover from pl that have "plain_name (member_name m)" "plain_name (member_name x)"
      by simp_all
    ultimately have "compare root_collation (member_name m) (member_name x) \<noteq> Greater"
      using agree by simp
    then show ?thesis by (rule root_collation_not_greater)
  qed
  moreover have "sorted_wrt (\<le>) (map (\<lambda>m. map to_lower (member_name m)) ms)"
    using Cons.IH[OF tail] pl by simp
  ultimately show ?case by simp
qed

section \<open>The order of the report\<close>

text \<open>
  C9, as the claim states it, at a report with the members Zed, bob and Al: under the root
  collation the handler emits them as Al, bob, Zed, which is not the lexicographic order of
  the names by character code (there Zed comes before bob).
\<close>

theorem members_not_in_code_unit_order:
  "\<exists>r. capacity_handler root_collation (\<lambda>q. []) (\<lambda>f. None)
          (\<lambda>nm. if nm = ''PI_01'' then
                  HttpOk [\<lparr>issue_fields = \<lparr>assignee = Some \<lparr>displayName = Some ''Zed'', name = None\<rparr>,
                                             timeestimate = Some 60\<rparr>, sprintName_tag = None\<rparr>,
                          \<lparr>issue_fields = \<lparr>assignee = Some \<lparr>displayName = Some ''bob'', name = None\<rparr>,
                                             timeestimate = Some 60\<rparr>, sprintName_tag = None\<rparr>,
                          \<lparr>issue_fields = \<lparr>assignee = Some \<lparr>displayName = Some ''Al'', name = None\<rparr>,
                                             timeestimate = Some 60\<rparr>, sprintName_tag = None\<rparr>]
                else HttpOk [])
          (Some ''PI'') = Json r
      \<and> map member_name (report_members r) = [''Al'', ''bob'', ''Zed'']
      \<and> \<not> sorted_wrt (\<le>) (map member_name (report_members r))"
proof -
  let ?src = "(\<lambda>nm. if nm = ''PI_01'' then
                  HttpOk [\<lparr>issue_fields = \<lparr>assignee = Some \<lparr>displayName = Some ''Zed'', name = None\<rparr>,
                                             timeestimate = Some 60\<rparr>, sprintName_tag = None\<rparr>,
                          \<lparr>issue_fields = \<lparr>assignee = Some \<lparr>displayName = Some ''bob'', name = None\<rparr>,
                                             timeestimate = Some 60\<rparr>, sprintName_tag = None\<rparr>,
                          \<lparr>issue_fields = \<lparr>assignee = Some \<lparr>displayName = Some ''Al'', name = None\<rparr>,
                                             timeestimate = Some 60\<rparr>, sprintName_tag = None\<rparr>]
                else HttpOk [])"
  let ?r = "\<lparr>report_pi = ''PI'', report_iterations = [''PI_01''],
            report_members = [\<lparr>member_name = ''Al'', member_capacity = [(''PI_01'', 60)]\<rparr>,
                              \<lparr>member_name = ''bob'', member_capacity = [(''PI_01'', 60)]\<rparr>,
                              \<lparr>member_name = ''Zed'', member_capacity = [(''PI_01'', 60)]\<rparr>],
            report_baselineCapacity = None\<rparr>"
  have h: "capacity_handler root_collation (\<lambda>q. []) (\<lambda>f. None) ?src (Some ''PI'') = Json ?r"
    by code_simp
  have "\<not> sorted_wrt (\<le>) [''Al'', ''bob'', ''Zed'']" by code_simp
  with h show ?thesis by simp
qed

text \<open>
  C9, amended. In every report the handler emits, the iteration names are strictly ascending
  in the lexicographic order on character codes, and they are the names of an ascending list
  of sequence numbers between 1 and 50, so the order is the numeric one. The members are
  sorted by name in the order of \<^verbatim>\<open>localeCompare\<close>, not in the order of character codes:
  where \<^verbatim>\<open>localeCompare\<close> is the root collation on names of letters, digits and spaces,
  and the member names are such names, the names with upper case folded to lower case are in
  ascending lexicographic order.
\<close>

theorem report_order:
  assumes "capacity_handler localeCompare numToString dir src query_pi = Json r"
  shows "sorted_wrt (<) (report_iterations r)
       \<and> (\<exists>ns. sorted_wrt (<) ns \<and> set ns \<subseteq> {1..50}
                 \<and> report_iterations r = map (sprint_name (report_pi r)) ns)
       \<and> Sorting_Algorithms.sorted (key member_name localeCompare) (report_members r)
       \<and> ((\<forall>x y. plain_name x \<and> plain_name y
                   \<longrightarrow> compare localeCompare x y = compare root_collation x y)
            \<and> (\<forall>m\<in>set (report_members r). plain_name (member_name m))
          \<longrightarrow> sorted_wrt (\<le>) (map (\<lambda>m. map to_lower (member_name m)) (report_members r)))"
proof -
  from assms obtain piName ps st where ps: "prober piName src = Inr ps"
    and st: "aggregate (allIssues ps) agg_init = Inr st"
    and r: "r = \<lparr>report_pi = piName,
                report_iterations = sort_key (\<lambda>x. x) (iterations st),
                report_members =
                  Sorting_Algorithms.sort (key member_name localeCompare) (map snd (members st)),
                report_baselineCapacity = getCapacityFromExcel numToString dir piName\<rparr>"
    by (auto simp: capacity_handler_def build_report_def split: option.splits if_splits sum.splits)
  from aggregate_iterations[OF st] have sub: "set (iterations st) \<subseteq> {t. \<exists>i\<in>set (allIssues ps). sprintName_tag i = Some t}"
    and dist: "distinct (iterations st)"
    by (auto simp: agg_init_def)
  from prober_tags[OF ps] sub have "set (iterations st) \<subseteq> sprint_name piName ` {1..50}"
    by (fastforce simp: tagged_in_range_def)
  from sorted_names_numeric[OF dist this] obtain ns where ns: "sorted_wrt (<) ns" "set ns \<subseteq> {1..50}"
    "sort_key (\<lambda>x. x) (iterations st) = map (sprint_name piName) ns" by blast
  have it: "sorted_wrt (<) (sort_key (\<lambda>x. x) (iterations st))"
    using dist sorted_sort_key[of "\<lambda>x. x" "iterations st"] by (simp add: strict_sorted_iff)
  have ms: "Sorting_Algorithms.sorted (key member_name localeCompare) (report_members r)"
    using r by simp
  have low: "sorted_wrt (\<le>) (map (\<lambda>m. map to_lower (member_name m)) (report_members r))"
    if "\<forall>x y. plain_name x \<and> plain_name y
                   \<longrightarrow> compare localeCompare x y = compare root_collation x y"
      and "\<forall>m\<in>set (report_members r). plain_name (member_name m)"
    using sorted_lower_names[OF that(1) ms that(2)] .
  from it ns r ms low show ?thesis by auto
qed

theorem report_order_witness:
  "\<exists>r. capacity_handler root_collation (\<lambda>q. []) (\<lambda>f. None)
          (\<lambda>nm. if nm = ''PI_01'' then
                  HttpOk [\<lparr>issue_fields = \<lparr>assignee = Some \<lparr>displayName = Some ''Zed'', name = None\<rparr>,
                                             timeestimate = Some 3600\<rparr>, sprintName_tag = None\<rparr>,
                          \<lparr>issue_fields = \<lparr>assignee = Some \<lparr>displayName = Some ''bob'', name = None\<rparr>,
                                             timeestimate = Some 60\<rparr>, sprintName_tag = None\<rparr>]
                else if nm = ''PI_02'' then
                  HttpOk [\<lparr>issue_fields = \<lparr>assignee = Some \<lparr>displayName = Some ''Al'', name = None\<rparr>,
                                             timeestimate = Some 60\<rparr>, sprintName_tag = None\<rparr>]
                else HttpOk [])
          (Some ''PI'') = Json r
      \<and> report_iterations r = [''PI_01'', ''PI_02'']
      \<and> sorted_wrt (<) (report_iterations r)
      \<and> map member_name (report_members r) = [''Al'', ''bob'', ''Zed'']
      \<and> Sorting_Algorithms.sorted (key member_name root_collation) (report_members r)
      \<and> sorted_wrt (\<le>) (map (\<lambda>m. map to_lower (member_name m)) (report_members r))"
proof -
  let ?src = "(\<lambda>nm. if nm = ''PI_01'' then
                  HttpOk [\<lparr>issue_fields = \<lparr>assignee = Some \<lparr>displayName = Some ''Zed'', name = None\<rparr>,
                                             timeestimate = Some 3600\<rparr>, sprintName_tag = None\<rparr>,
                          \<lparr>issue_fields = \<lparr>assignee = Some \<lparr>displayName = Some ''bob'', name = None\<rparr>,
                                             timeestimate = Some 60\<rparr>, sprintName_tag = None\<rparr>]
                else if nm = ''PI_02'' then
                  HttpOk [\<lparr>issue_fields = \<lparr>assignee = Some \<lparr>displayName = Some ''Al'', name = None\<rparr>,
                                             timeestimate = Some 60\<rparr>, sprintName_tag = None\<rparr>]
                else HttpOk [])"
  let ?r = "\<lparr>report_pi = ''PI'', report_iterations = [''PI_01'', ''PI_02''],
            report_members = [\<lparr>member_name = ''Al'', member_capacity = [(''PI_02'', 60)]\<rparr>,
                              \<lparr>member_name = ''bob'', member_capacity = [(''PI_01'', 60)]\<rparr>,
                              \<lparr>member_name = ''Zed'', member_capacity = [(''PI_01'', 3600)]\<rparr>],
            report_baselineCapacity = None\<rparr>"
  have h: "capacity_handler root_collation (\<lambda>q. []) (\<lambda>f. None) ?src (Some ''PI'') = Json ?r"
    by code_simp
  have agree: "\<forall>x y. plain_name x \<and> plain_name y
                   \<longrightarrow> compare root_collation x y = compare root_collation x y" by simp
  have plain: "\<forall>m\<in>set (report_members ?r). plain_name (member_name m)" by code_simp
  from report_order[OF h] agree plain h show ?thesis by simp
qed

lemma find_first_match:
  assumes "k < length xs" "\<forall>j<k. \<not> P (xs ! j)" "P (xs ! k)"
  shows "find P xs = Some (xs ! k)"
  using assms
proof (induction xs arbitrary: k)
  case Nil
  then show ?case by simp
next
  case (Cons x xs)
  show ?case
  proof (cases k)
    case 0
    with Cons.prems show ?thesis by simp
  next
    case (Suc k')
    with Cons.prems have "\<not> P x" by auto
    moreover have "find P xs = Some (xs ! k')"
      using Cons.prems Suc by (intro Cons.IH) auto
    ultimately show ?thesis using Suc by simp
  qed
qed

section \<open>The Baseline Capacity Loader\<close>

text \<open>
  C7. The loader returns null, and never throws, in every case of absence or failure: when
  none of the three candidate file names exists; when the first candidate that exists cannot
  be read (the exception of the \<^verbatim>\<open>try\<close> block is caught); and whenever the body of the
  \<^verbatim>\<open>try\<close> block throws at all. The first candidate that exists decides: when it reads as
  a grid, the result is the parse of that grid, whatever the later candidates hold.
\<close>

theorem loader_returns_null_instead_of_throwing:
  "((\<forall>name\<in>set (possibleFilenames piName). dir name = None)
        \<longrightarrow> getCapacityFromExcel numToString dir piName = None)
   \<and> (\<forall>k<length (possibleFilenames piName).
         (\<forall>j<k. dir (possibleFilenames piName ! j) = None)
         \<longrightarrow> (dir (possibleFilenames piName ! k) = Some Unreadable
                \<longrightarrow> read_capacity numToString dir piName = Inl TypeError
                  \<and> getCapacityFromExcel numToString dir piName = None)
           \<and> (\<forall>data. dir (possibleFilenames piName ! k) = Some (Sheet data)
                \<longrightarrow> getCapacityFromExcel numToString dir piName = parse_grid numToString data))
   \<and> (\<forall>e. read_capacity numToString dir piName = Inl e
         \<longrightarrow> getCapacityFromExcel numToString dir piName = None)"
proof (intro conjI allI impI)
  assume "\<forall>name\<in>set (possibleFilenames piName). dir name = None"
  then have "find (\<lambda>name. dir name \<noteq> None) (possibleFilenames piName) = None"
    by (simp add: find_None_iff)
  then show "getCapacityFromExcel numToString dir piName = None"
    by (simp add: getCapacityFromExcel_def read_capacity_def)
next
  fix k assume k: "k < length (possibleFilenames piName)"
    and before: "\<forall>j<k. dir (possibleFilenames piName ! j) = None"
    and u: "dir (possibleFilenames piName ! k) = Some Unreadable"
  have f: "find (\<lambda>name. dir name \<noteq> None) (possibleFilenames piName) = Some (possibleFilenames piName ! k)"
    using k before u by (intro find_first_match) auto
  with u show "read_capacity numToString dir piName = Inl TypeError"
    by (simp add: read_capacity_def)
  then show "getCapacityFromExcel numToString dir piName = None"
    by (simp add: getCapacityFromExcel_def)
next
  fix k data assume k: "k < length (possibleFilenames piName)"
    and before: "\<forall>j<k. dir (possibleFilenames piName ! j) = None"
    and u: "dir (possibleFilenames piName ! k) = Some (Sheet data)"
  have f: "find (\<lambda>name. dir name \<noteq> None) (possibleFilenames piName) = Some (possibleFilenames piName ! k)"
    using k before u by (intro find_first_match) auto
  with u show "getCapacityFromExcel numToString dir piName = parse_grid numToString data"
    by (simp add: getCapacityFromExcel_def read_capacity_def)
next
  fix e assume "read_capacity numToString dir piName = Inl e"
  then show "getCapacityFromExcel numToString dir piName = None"
    by (simp add: getCapacityFromExcel_def)
qed

theorem loader_returns_null_instead_of_throwing_witness:
  "possibleFilenames ''26_04'' = [''PI_CAPA_2026_04.xlsx'', ''PI_CAPA_26_04.xlsx'', ''PI_CAPA_202604.xlsx'']
   \<and> getCapacityFromExcel (\<lambda>q. []) (\<lambda>f. None) ''26_04'' = None
   \<and> getCapacityFromExcel (\<lambda>q. [])
        ((\<lambda>f. None)(''PI_CAPA_26_04.xlsx'' \<mapsto> Unreadable, ''PI_CAPA_202604.xlsx'' \<mapsto> Sheet [[Blank]]))
        ''26_04'' = None
   \<and> getCapacityFromExcel (\<lambda>q. [])
        ((\<lambda>f. None)(''PI_CAPA_2026_04.xlsx'' \<mapsto> Sheet [[Blank]], ''PI_CAPA_26_04.xlsx'' \<mapsto> Unreadable))
        ''26_04'' = Some \<lparr>baseline_members = [], baseline_capacity = []\<rparr>"
proof -
  let ?d0 = "(\<lambda>f. None) :: directory"
  let ?d1 = "?d0(''PI_CAPA_26_04.xlsx'' \<mapsto> Unreadable, ''PI_CAPA_202604.xlsx'' \<mapsto> Sheet [[Blank]])"
  let ?d2 = "?d0(''PI_CAPA_2026_04.xlsx'' \<mapsto> Sheet [[Blank]], ''PI_CAPA_26_04.xlsx'' \<mapsto> Unreadable)"
  have names: "possibleFilenames ''26_04'' = [''PI_CAPA_2026_04.xlsx'', ''PI_CAPA_26_04.xlsx'', ''PI_CAPA_202604.xlsx'']"
    by (simp add: possibleFilenames_def)
  have pg: "parse_grid (\<lambda>q. []) [[Blank]] = Some \<lparr>baseline_members = [], baseline_capacity = []\<rparr>"
    by code_simp
  note T0 = loader_returns_null_instead_of_throwing[of "''26_04''" ?d0 "\<lambda>q. []"]
  note T1 = loader_returns_null_instead_of_throwing[of "''26_04''" ?d1 "\<lambda>q. []"]
  note T2 = loader_returns_null_instead_of_throwing[of "''26_04''" ?d2 "\<lambda>q. []"]
  have a: "getCapacityFromExcel (\<lambda>q. []) ?d0 ''26_04'' = None"
    using T0 by simp
  have b: "getCapacityFromExcel (\<lambda>q. []) ?d1 ''26_04'' = None"
    using conjunct1[OF conjunct2[OF T1], rule_format, of 1] by (simp add: names)
  have c: "getCapacityFromExcel (\<lambda>q. []) ?d2 ''26_04'' = Some \<lparr>baseline_members = [], baseline_capacity = []\<rparr>"
    using conjunct1[OF conjunct2[OF T2], rule_format, of 0] by (simp add: names pg)
  from names a b c show ?thesis by simp
qed

section \<open>The Capacity Merger\<close>

text \<open>
  C4. For every (member, iteration) pair of the planned data the merger emits an entry with
  the member, the iteration and the planned seconds. When the baseline holds no value for
  the pair, and in particular when no spreadsheet was found, the baseline of the entry is the
  default of 288000 seconds (80 hours).
\<close>

theorem merger_keeps_every_planned_pair:
  assumes "m \<in> set planned" and "(iterationName, p) \<in> set (member_capacity m)"
  shows "\<exists>e\<in>set (merge_capacity planned b).
           entry_member e = member_name m \<and> entry_iteration e = iterationName
           \<and> entry_planned e = p
           \<and> (baseline_lookup b (member_name m) iterationName = None \<longrightarrow> entry_baseline e = 288000)
           \<and> (b = None \<longrightarrow> entry_baseline e = 288000)"
proof -
  let ?e = "\<lparr>entry_member = member_name m, entry_iteration = iterationName,
             entry_planned = p,
             entry_baseline = baseline_or_default b (member_name m) iterationName,
             entry_band = classify p (baseline_or_default b (member_name m) iterationName)\<rparr>"
  from assms(2) have "?e \<in> set (merge_member b m)"
    by (force simp: merge_member_def)
  with assms(1) have "?e \<in> set (merge_capacity planned b)"
    by (auto simp: merge_capacity_def)
  moreover have "baseline_lookup b (member_name m) iterationName = None
      \<Longrightarrow> baseline_or_default b (member_name m) iterationName = 288000"
    by (simp add: baseline_or_default_def DEFAULT_BASELINE_def)
  moreover have "b = None \<Longrightarrow> baseline_lookup b (member_name m) iterationName = None"
    by (simp add: baseline_lookup_def)
  ultimately show ?thesis by (intro bexI[of _ ?e]) auto
qed

theorem merger_keeps_every_planned_pair_witness:
  "\<exists>e\<in>set (merge_capacity
              [\<lparr>member_name = ''Bob'', member_capacity = [(''26_04_01'', 3600)]\<rparr>] None).
      entry_member e = ''Bob'' \<and> entry_iteration e = ''26_04_01'' \<and> entry_planned e = 3600
      \<and> entry_baseline e = 288000"
proof -
  let ?m = "\<lparr>member_name = ''Bob'', member_capacity = [(''26_04_01'', 3600)]\<rparr>"
  have h1: "?m \<in> set [?m]" by simp
  have h2: "(''26_04_01'', 3600) \<in> set (member_capacity ?m)" by simp
  from merger_keeps_every_planned_pair[OF h1 h2, of None] show ?thesis by auto
qed

text \<open>
  C5. With a positive baseline and \<open>ratio = planned / baseline\<close>, a cell is red exactly when
  the ratio exceeds 1.05, yellow exactly when it is above 1 and at most 1.05, and normal
  exactly when it is at most 1. With a baseline of 0 the ratio is treated as 0, and the cell
  is over capacity when something is planned and within capacity otherwise.
\<close>

theorem classification_bands:
  "(0 < base \<longrightarrow>
       (classify planned base = Red \<longleftrightarrow> of_int planned / base > 105 / 100)
     \<and> (classify planned base = Yellow \<longleftrightarrow> 1 < of_int planned / base \<and> of_int planned / base \<le> 105 / 100)
     \<and> (classify planned base = Normal \<longleftrightarrow> of_int planned / base \<le> 1))
   \<and> ratio planned 0 = 0
   \<and> classify planned 0 = (if planned > 0 then Red else Normal)"
proof (intro conjI impI)
  assume pos: "0 < base"
  define q where "q = rat_of_int planned / base"
  have r: "ratio planned base = q" using pos by (simp add: ratio_def q_def)
  have nz: "base \<noteq> 0" using pos by simp
  have c: "classify planned base = (if q > 105 / 100 then Red else if q > 1 then Yellow else Normal)"
    by (simp only: classify_def r nz if_False)
  have "classify planned base = Red \<longleftrightarrow> q > 105 / 100"
    unfolding c by simp
  then show "classify planned base = Red \<longleftrightarrow> of_int planned / base > 105 / 100"
    unfolding q_def .
  have "classify planned base = Yellow \<longleftrightarrow> 1 < q \<and> q \<le> 105 / 100"
    unfolding c by auto
  then show "classify planned base = Yellow \<longleftrightarrow> 1 < of_int planned / base \<and> of_int planned / base \<le> 105 / 100"
    unfolding q_def .
  have "classify planned base = Normal \<longleftrightarrow> q \<le> 1"
    unfolding c by auto
  then show "classify planned base = Normal \<longleftrightarrow> of_int planned / base \<le> 1"
    unfolding q_def .
next
  show "ratio planned 0 = 0" by (simp add: ratio_def)
  show "classify planned 0 = (if planned > 0 then Red else Normal)" by (simp add: classify_def)
qed

theorem classification_bands_witness:
  "classify 28800 28800 = Normal \<and> classify 30500 28800 = Red \<and> classify 29500 28800 = Yellow
   \<and> classify 3600 0 = Red \<and> classify 0 0 = Normal"
proof -
  have h: "(0::rat) < 28800" by simp
  from classification_bands[of 28800 28800] h have a: "classify 28800 28800 = Normal" by simp
  from classification_bands[of 28800 30500] h have b: "classify 30500 28800 = Red" by simp
  from classification_bands[of 28800 29500] h have c: "classify 29500 28800 = Yellow" by simp
  from classification_bands[of 0 3600] have d: "classify 3600 0 = Red" by simp
  from classification_bands[of 0 0] have e: "classify 0 0 = Normal" by simp
  from a b c d e show ?thesis by simp
qed

section \<open>Inputs on which the code leaves the specification\<close>

text \<open>
  C2, at a query that comes back not ok with the body \<^verbatim>\<open>null\<close>: iteration 01
  returns an issue, and the query for iteration 02 is answered with an error status and a body
  that parses to \<^verbatim>\<open>null\<close>. The warning of the not-ok branch reads
  \<^verbatim>\<open>data.errorMessages\<close>, which throws before the loop is left, so the prober returns
  no iterations and the request is answered with status 500 instead of the report of the one
  iteration collected.
\<close>

theorem null_error_body_fails_the_request:
  "prober ''PI''
     (\<lambda>nm. if nm = ''PI_02'' then HttpErrorNull
           else HttpOk [\<lparr>issue_fields =
                           \<lparr>assignee = Some \<lparr>displayName = Some ''Bob'', name = None\<rparr>,
                            timeestimate = Some 3600\<rparr>,
                         sprintName_tag = None\<rparr>]) = Inl TypeError
   \<and> capacity_handler default (\<lambda>q. []) (\<lambda>f. None)
       (\<lambda>nm. if nm = ''PI_02'' then HttpErrorNull
             else HttpOk [\<lparr>issue_fields =
                             \<lparr>assignee = Some \<lparr>displayName = Some ''Bob'', name = None\<rparr>,
                              timeestimate = Some 3600\<rparr>,
                           sprintName_tag = None\<rparr>])
       (Some ''PI'') = Failure 500 ''Failed to fetch capacity data''"
  by code_simp

text \<open>
  C3, at an issue whose assignee is displayed as \<open>constructor\<close>: the read
  \<^verbatim>\<open>members[assigneeName]\<close> finds the function that every object inherits, so no entry
  is created and the following read of \<^verbatim>\<open>.capacity[sprintName]\<close> throws. The aggregation
  produces no planned total for the member, and the request is answered with status 500.
\<close>

theorem aggregation_throws_on_inherited_member_name:
  "aggregate
     [\<lparr>issue_fields = \<lparr>assignee = Some \<lparr>displayName = Some ''constructor'', name = None\<rparr>,
                        timeestimate = Some 3600\<rparr>,
       sprintName_tag = Some ''26_04_01''\<rparr>] agg_init = Inl TypeError
   \<and> capacity_handler default (\<lambda>q. []) (\<lambda>f. None)
       (\<lambda>nm. if nm = ''26_04_01''
             then HttpOk [\<lparr>issue_fields =
                             \<lparr>assignee = Some \<lparr>displayName = Some ''constructor'', name = None\<rparr>,
                              timeestimate = Some 3600\<rparr>,
                           sprintName_tag = None\<rparr>]
             else HttpOk [])
       (Some ''26_04'') = Failure 500 ''Failed to fetch capacity data''"
  by code_simp

text \<open>
  C6, at a header row with a blank cell between two names: Alice stands in column 4 and Bob
  in column 6. Dropping the blank makes Bob the second member of the roster, and the capacity
  row is read at roster position plus 4, that is at column 5. Bob's 6 hours in column 6 are
  not recorded.
\<close>

theorem capacity_row_reads_shifted_column:
  "parse_grid (\<lambda>q. [])
     [[Blank, Blank, Blank, Blank, Str ''Alice'', Blank, Str ''Bob''],
      [Str ''PI2026_04_01'', Str ''CAPA'', Blank, Blank, Num 8, Blank, Num 6]]
   = Some \<lparr>baseline_members = [Str ''Alice'', Str ''Bob''],
           baseline_capacity = [(''Alice'', [(''26_04_01'', 28800)]), (''Bob'', [])]\<rparr>"
  by code_simp

text \<open>
  C8, at an upload that carries a file and no \<open>pi\<close> field: the request is rejected with
  status 400, and the file that the middleware stored as \<open>temp_plan.xlsx\<close> stays in the
  directory.
\<close>

theorem upload_without_pi_leaves_temp_file:
  "upload_handler renameTarget
     \<lparr>body_pi = None,
      req_file = Some \<lparr>originalname = ''plan.xlsx'', content = Sheet []\<rparr>\<rparr>
     (\<lambda>f. None)
   = (Rejected 400 ''PI name is required'', (\<lambda>f. None)(''temp_plan.xlsx'' \<mapsto> Sheet []))"
  by (simp add: upload_handler_def multer_single_def)

section \<open>What the handlers do on the other inputs\<close>

text \<open>
  X3 (the upload handler, to C8). For an upload with a \<open>pi\<close> field and a file: when the
  extension of the file name is not \<open>.xlsx\<close>, the request is rejected with status 400 and the
  temp file is removed. Otherwise, when renaming throws, the request is answered with status
  500 and the temp file is removed; when renaming puts the file under its new name, the file
  is stored as \<open>PI_CAPA_20<pi>.xlsx\<close>, replacing what was stored under that name, the temp
  file is gone, and no other file changes.
\<close>

theorem upload_rejects_or_stores:
  assumes "body_pi req = Some piName" and "piName \<noteq> []"
    and "req_file req = Some f"
  shows "(extname (originalname f) \<noteq> ''.xlsx'' \<longrightarrow>
            upload_handler renameTarget req dir
              = (Rejected 400 ''Only .xlsx files are allowed'',
                 dir(''temp_'' @ originalname f := None)))
       \<and> (extname (originalname f) = ''.xlsx''
            \<and> renameTarget (''PI_CAPA_20'' @ piName @ ''.xlsx'') = None \<longrightarrow>
            upload_handler renameTarget req dir
              = (Rejected 500 ''Failed to upload file'',
                 dir(''temp_'' @ originalname f := None)))
       \<and> (extname (originalname f) = ''.xlsx''
            \<and> renameTarget (''PI_CAPA_20'' @ piName @ ''.xlsx'')
                = Some (''PI_CAPA_20'' @ piName @ ''.xlsx'') \<longrightarrow>
            fst (upload_handler renameTarget req dir)
              = Uploaded (''PI_CAPA_20'' @ piName @ ''.xlsx'')
          \<and> snd (upload_handler renameTarget req dir) (''PI_CAPA_20'' @ piName @ ''.xlsx'')
              = Some (content f)
          \<and> snd (upload_handler renameTarget req dir) (''temp_'' @ originalname f) = None
          \<and> (\<forall>other. other \<noteq> ''PI_CAPA_20'' @ piName @ ''.xlsx''
                 \<and> other \<noteq> ''temp_'' @ originalname f
                 \<longrightarrow> snd (upload_handler renameTarget req dir) other = dir other))"
  using assms
  by (auto simp: upload_handler_def multer_single_def Let_def)

theorem upload_rejects_or_stores_witness:
  "upload_handler Some \<lparr>body_pi = Some ''26_04'',
                    req_file = Some \<lparr>originalname = ''plan.txt'', content = Unreadable\<rparr>\<rparr>
       (\<lambda>f. None)
     = (Rejected 400 ''Only .xlsx files are allowed'', (\<lambda>f. None)(''temp_plan.txt'' := None))
   \<and> upload_handler (\<lambda>n. None) \<lparr>body_pi = Some ''a/b'',
                    req_file = Some \<lparr>originalname = ''plan.xlsx'', content = Sheet []\<rparr>\<rparr>
       (\<lambda>f. None)
     = (Rejected 500 ''Failed to upload file'', (\<lambda>f. None)(''temp_plan.xlsx'' := None))
   \<and> fst (upload_handler Some \<lparr>body_pi = Some ''26_04'',
                    req_file = Some \<lparr>originalname = ''plan.xlsx'', content = Sheet []\<rparr>\<rparr>
       ((\<lambda>f. None)(''PI_CAPA_2026_04.xlsx'' \<mapsto> Unreadable)))
     = Uploaded ''PI_CAPA_2026_04.xlsx''
   \<and> snd (upload_handler Some \<lparr>body_pi = Some ''26_04'',
                    req_file = Some \<lparr>originalname = ''plan.xlsx'', content = Sheet []\<rparr>\<rparr>
       ((\<lambda>f. None)(''PI_CAPA_2026_04.xlsx'' \<mapsto> Unreadable))) ''PI_CAPA_2026_04.xlsx''
     = Some (Sheet [])"
proof -
  let ?bad = "\<lparr>body_pi = Some ''26_04'',
                req_file = Some \<lparr>originalname = ''plan.txt'', content = Unreadable\<rparr>\<rparr>"
  let ?sep = "\<lparr>body_pi = Some ''a/b'',
                req_file = Some \<lparr>originalname = ''plan.xlsx'', content = Sheet []\<rparr>\<rparr>"
  let ?good = "\<lparr>body_pi = Some ''26_04'',
                req_file = Some \<lparr>originalname = ''plan.xlsx'', content = Sheet []\<rparr>\<rparr>"
  have e1: "extname ''plan.txt'' \<noteq> ''.xlsx''" by code_simp
  have e2: "extname ''plan.xlsx'' = ''.xlsx''" by code_simp
  from upload_rejects_or_stores[of ?bad "''26_04''" "\<lparr>originalname = ''plan.txt'', content = Unreadable\<rparr>"
      Some "\<lambda>f. None"] e1
  have a: "upload_handler Some ?bad (\<lambda>f. None)
     = (Rejected 400 ''Only .xlsx files are allowed'', (\<lambda>f. None)(''temp_plan.txt'' := None))"
    by simp
  from upload_rejects_or_stores[of ?sep "''a/b''" "\<lparr>originalname = ''plan.xlsx'', content = Sheet []\<rparr>"
      "\<lambda>n. None" "\<lambda>f. None"] e2
  have s: "upload_handler (\<lambda>n. None) ?sep (\<lambda>f. None)
     = (Rejected 500 ''Failed to upload file'', (\<lambda>f. None)(''temp_plan.xlsx'' := None))"
    by simp
  from upload_rejects_or_stores[of ?good "''26_04''" "\<lparr>originalname = ''plan.xlsx'', content = Sheet []\<rparr>"
      Some "(\<lambda>f. None)(''PI_CAPA_2026_04.xlsx'' \<mapsto> Unreadable)"] e2
  have b: "fst (upload_handler Some ?good ((\<lambda>f. None)(''PI_CAPA_2026_04.xlsx'' \<mapsto> Unreadable)))
     = Uploaded ''PI_CAPA_2026_04.xlsx''"
    and c: "snd (upload_handler Some ?good ((\<lambda>f. None)(''PI_CAPA_2026_04.xlsx'' \<mapsto> Unreadable))) ''PI_CAPA_2026_04.xlsx''
     = Some (Sheet [])"
    by simp_all
  from a s b c show ?thesis by simp
qed

text \<open>
  X1 (the aggregation, to C3). When no assigned issue resolves to a member name that every
  object inherits, the aggregation of what the prober returns succeeds, and it holds a total
  for a (member, iteration) pair exactly when an issue is attributed to the pair: the sum of
  the remaining estimates of these issues, with a missing estimate counting 0. Issues without
  an assignee contribute to no pair. With estimates that are not negative, no total is
  negative. The estimates are integers whose magnitudes sum to at most \<open>2 ^ 53\<close>, so that
  the additions of the code are exact.
\<close>

theorem aggregate_totals_are_sums:
  assumes "prober piName src = Inr ps"
    and "\<forall>i\<in>set (allIssues ps). aggregable i"
    and "sum_list (map (\<lambda>i. \<bar>remainingEstimate_of i\<bar>) (allIssues ps)) \<le> double_exact_bound"
  shows "\<exists>st. aggregate (allIssues ps) agg_init = Inr st
       \<and> (\<forall>m s. planned_lookup st m s =
              (if \<exists>i\<in>set (allIssues ps). attributed m s i
               then Some (planned_total (allIssues ps) m s) else None))
       \<and> ((\<forall>i\<in>set (allIssues ps). 0 \<le> remainingEstimate_of i)
            \<longrightarrow> (\<forall>m s v. planned_lookup st m s = Some v \<longrightarrow> 0 \<le> v))"
proof -
  have inv0: "\<forall>m s. planned_lookup agg_init m s =
              (if \<exists>j\<in>set []. attributed m s j then Some (planned_total [] m s) else None)"
    by (simp add: planned_lookup_def agg_init_def)
  from prober_tags[OF assms(1)] assms(2)
  have ok: "\<forall>i\<in>set (allIssues ps). aggregable i \<and> tagged_in_range piName i" by simp
  from aggregate_totals_from[OF inv0 ok] obtain st
    where st: "aggregate (allIssues ps) agg_init = Inr st"
      and tot: "\<forall>m s. planned_lookup st m s =
              (if \<exists>i\<in>set (allIssues ps). attributed m s i
               then Some (planned_total (allIssues ps) m s) else None)" by auto
  have "0 \<le> v" if nn: "\<forall>i\<in>set (allIssues ps). 0 \<le> remainingEstimate_of i"
    and v: "planned_lookup st m s = Some v" for m s v
  proof -
    from tot v have "v = planned_total (allIssues ps) m s" by (auto split: if_splits)
    moreover from nn have "0 \<le> planned_total (allIssues ps) m s"
      unfolding planned_total_def by (intro sum_list_nonneg) auto
    ultimately show ?thesis by simp
  qed
  with st tot show ?thesis by blast
qed

theorem aggregate_totals_are_sums_witness:
  "\<exists>st. aggregate
      [\<lparr>issue_fields = \<lparr>assignee = Some \<lparr>displayName = Some ''Bob'', name = Some ''bob1''\<rparr>,
                         timeestimate = Some 3600\<rparr>, sprintName_tag = Some ''PI_01''\<rparr>,
       \<lparr>issue_fields = \<lparr>assignee = None, timeestimate = Some 500\<rparr>,
        sprintName_tag = Some ''PI_01''\<rparr>,
       \<lparr>issue_fields = \<lparr>assignee = Some \<lparr>displayName = Some ''Bob'', name = None\<rparr>,
                         timeestimate = None\<rparr>, sprintName_tag = Some ''PI_01''\<rparr>,
       \<lparr>issue_fields = \<lparr>assignee = Some \<lparr>displayName = Some [], name = Some ''al''\<rparr>,
                         timeestimate = Some 60\<rparr>, sprintName_tag = Some ''PI_01''\<rparr>,
       \<lparr>issue_fields = \<lparr>assignee = Some \<lparr>displayName = None, name = None\<rparr>,
                         timeestimate = Some 7\<rparr>, sprintName_tag = Some ''PI_01''\<rparr>,
       \<lparr>issue_fields = \<lparr>assignee = Some \<lparr>displayName = Some ''Bob'', name = None\<rparr>,
                         timeestimate = Some 1200\<rparr>, sprintName_tag = Some ''PI_01''\<rparr>]
      agg_init = Inr st
    \<and> planned_lookup st ''Bob'' ''PI_01'' = Some 4800
    \<and> planned_lookup st ''al'' ''PI_01'' = Some 60
    \<and> planned_lookup st ''Unassigned'' ''PI_01'' = Some 7
    \<and> planned_lookup st ''Bob'' ''PI_02'' = None"
proof -
  let ?raw = "[\<lparr>issue_fields = \<lparr>assignee = Some \<lparr>displayName = Some ''Bob'', name = Some ''bob1''\<rparr>,
                         timeestimate = Some 3600\<rparr>, sprintName_tag = None\<rparr>,
       \<lparr>issue_fields = \<lparr>assignee = None, timeestimate = Some 500\<rparr>,
        sprintName_tag = None\<rparr>,
       \<lparr>issue_fields = \<lparr>assignee = Some \<lparr>displayName = Some ''Bob'', name = None\<rparr>,
                         timeestimate = None\<rparr>, sprintName_tag = None\<rparr>,
       \<lparr>issue_fields = \<lparr>assignee = Some \<lparr>displayName = Some [], name = Some ''al''\<rparr>,
                         timeestimate = Some 60\<rparr>, sprintName_tag = None\<rparr>,
       \<lparr>issue_fields = \<lparr>assignee = Some \<lparr>displayName = None, name = None\<rparr>,
                         timeestimate = Some 7\<rparr>, sprintName_tag = None\<rparr>,
       \<lparr>issue_fields = \<lparr>assignee = Some \<lparr>displayName = Some ''Bob'', name = None\<rparr>,
                         timeestimate = Some 1200\<rparr>, sprintName_tag = None\<rparr>]"
  let ?src = "\<lambda>nm. if nm = ''PI_01'' then HttpOk ?raw else HttpOk []"
  let ?tagged = "map (tag_issue ''PI_01'') ?raw"
  let ?ps = "\<lparr>allIssues = ?tagged, iterationsFound = [''PI_01''], iterationNum = 2,
             probed = [''PI_01'', ''PI_02''], thrown = None\<rparr>"
  have h1: "prober ''PI'' ?src = Inr ?ps" by code_simp
  have h2: "\<forall>i\<in>set (allIssues ?ps). aggregable i" by code_simp
  have h3: "sum_list (map (\<lambda>i. \<bar>remainingEstimate_of i\<bar>) (allIssues ?ps)) \<le> double_exact_bound"
    by code_simp
  have e1: "(\<exists>i\<in>set (allIssues ?ps). attributed ''Bob'' ''PI_01'' i)"
     "(\<exists>i\<in>set (allIssues ?ps). attributed ''al'' ''PI_01'' i)"
     "(\<exists>i\<in>set (allIssues ?ps). attributed ''Unassigned'' ''PI_01'' i)"
     "\<not> (\<exists>i\<in>set (allIssues ?ps). attributed ''Bob'' ''PI_02'' i)"
    by code_simp+
  have e2: "planned_total (allIssues ?ps) ''Bob'' ''PI_01'' = 4800"
     "planned_total (allIssues ?ps) ''al'' ''PI_01'' = 60"
     "planned_total (allIssues ?ps) ''Unassigned'' ''PI_01'' = 7"
    by code_simp+
  from aggregate_totals_are_sums[OF h1 h2 h3] obtain st
    where st: "aggregate (allIssues ?ps) agg_init = Inr st"
      and tot: "\<forall>m s. planned_lookup st m s =
              (if \<exists>i\<in>set (allIssues ?ps). attributed m s i
               then Some (planned_total (allIssues ?ps) m s) else None)" by blast
  from tot e1 e2 have "planned_lookup st ''Bob'' ''PI_01'' = Some 4800"
    "planned_lookup st ''al'' ''PI_01'' = Some 60"
    "planned_lookup st ''Unassigned'' ''PI_01'' = Some 7"
    "planned_lookup st ''Bob'' ''PI_02'' = None"
    by (simp_all only: if_True if_False)
  moreover have "allIssues ?ps = map (tag_issue ''PI_01'') ?raw" by simp
  ultimately show ?thesis using st by (auto simp: tag_issue_def)
qed

lemma capacity_lookup_set_capacity:
  "capacity_lookup (set_capacity cm k it v) k' it' =
     (if k' = k \<and> it' = it \<and> map_of cm k \<noteq> None \<and> it \<noteq> ''__proto__'' then Some v
      else capacity_lookup cm k' it')"
  by (auto simp: capacity_lookup_def set_capacity_def map_of_js_set js_assign_def
           split: option.splits)

lemma dom_set_capacity:
  "(map_of (set_capacity cm k it v) k' = None) = (map_of cm k' = None)"
  by (auto simp: set_capacity_def map_of_js_set split: option.splits)

lemma capa_step_other:
  assumes "k \<notin> set (map (\<lambda>p. key_of ns (fst p)) ps)"
  shows "capacity_lookup
           (fold (\<lambda>(name, idx) cm'.
                    case cell_at row (idx + 4) of
                      Num val \<Rightarrow> set_capacity cm' (key_of ns name) it (val * 3600)
                    | _ \<Rightarrow> cm') ps cm) k it'
         = capacity_lookup cm k it'"
  using assms
proof (induction ps arbitrary: cm)
  case Nil
  then show ?case by simp
next
  case (Cons p ps)
  obtain name idx where p: "p = (name, idx)" by (cases p)
  from Cons.prems p have ne: "k \<noteq> key_of ns name" and rest: "k \<notin> set (map (\<lambda>p. key_of ns (fst p)) ps)"
    by auto
  show ?case
    using Cons.IH[OF rest] ne p
    by (cases "cell_at row (idx + 4)") (simp_all add: capacity_lookup_set_capacity)
qed

lemma capa_step_dom:
  "(map_of (fold (\<lambda>(name, idx) cm'.
                    case cell_at row (idx + 4) of
                      Num val \<Rightarrow> set_capacity cm' (key_of ns name) it (val * 3600)
                    | _ \<Rightarrow> cm') ps cm) k = None) = (map_of cm k = None)"
proof (induction ps arbitrary: cm)
  case Nil
  then show ?case by simp
next
  case (Cons p ps)
  obtain name idx where p: "p = (name, idx)" by (cases p)
  show ?case
    using Cons.IH p
    by (cases "cell_at row (idx + 4)") (simp_all add: dom_set_capacity)
qed

lemma capa_step_member:
  assumes "distinct (map (\<lambda>p. key_of ns (fst p)) ps)" and "(nm, idx) \<in> set ps"
    and "map_of cm (key_of ns nm) \<noteq> None" and "it \<noteq> ''__proto__''"
  shows "capacity_lookup
           (fold (\<lambda>(name, idx) cm'.
                    case cell_at row (idx + 4) of
                      Num val \<Rightarrow> set_capacity cm' (key_of ns name) it (val * 3600)
                    | _ \<Rightarrow> cm') ps cm) (key_of ns nm) it
         = (case cell_at row (idx + 4) of
              Num val \<Rightarrow> Some (val * 3600)
            | _ \<Rightarrow> capacity_lookup cm (key_of ns nm) it)"
  using assms
proof (induction ps arbitrary: cm)
  case Nil
  then show ?case by simp
next
  case (Cons p ps)
  obtain name' idx' where p: "p = (name', idx')" by (cases p)
  show ?case
  proof (cases "p = (nm, idx)")
    case True
    with Cons.prems(1) have notin: "key_of ns nm \<notin> set (map (\<lambda>p. key_of ns (fst p)) ps)"
      by simp
    show ?thesis
      using True Cons.prems(3,4) capa_step_other[OF notin]
      by (cases "cell_at row (idx + 4)") (simp_all add: capacity_lookup_set_capacity)
  next
    case False
    with Cons.prems(2) have mem: "(nm, idx) \<in> set ps" by simp
    from Cons.prems(1) have d: "distinct (map (\<lambda>p. key_of ns (fst p)) ps)" by simp
    from Cons.prems(1) mem p have ne: "key_of ns name' \<noteq> key_of ns nm"
      by (auto simp: image_iff) 
    show ?thesis
    proof (cases "cell_at row (idx' + 4)")
      case (Num val)
      have dom: "map_of (set_capacity cm (key_of ns name') it (val * 3600)) (key_of ns nm) \<noteq> None"
        using Cons.prems(3) by (simp add: dom_set_capacity)
      from Cons.IH[OF d mem dom Cons.prems(4)] p Num ne show ?thesis
        by (simp add: capacity_lookup_set_capacity split: cell.splits)
    qed (use Cons.IH[OF d mem Cons.prems(3,4)] p in simp_all)
  qed
qed

lemma filter_take_all:
  assumes "k < length xs" and "\<forall>j\<le>k. P (xs ! j)"
  shows "k < length (filter P xs) \<and> filter P xs ! k = xs ! k"
proof -
  have t: "filter P (take (Suc k) xs) = take (Suc k) xs"
    using assms by (auto simp: filter_id_conv in_set_conv_nth)
  have "filter P xs = filter P (take (Suc k) xs @ drop (Suc k) xs)" by simp
  also have "\<dots> = take (Suc k) xs @ filter P (drop (Suc k) xs)"
    by (simp only: filter_append t)
  finally have eq: "filter P xs = take (Suc k) xs @ filter P (drop (Suc k) xs)" .
  have len: "k < length (take (Suc k) xs)" using assms(1) by simp
  from eq len show ?thesis by (simp add: nth_append)
qed

lemma roster_column:
  assumes "4 \<le> c" and "c < length row0" and "\<forall>j\<in>{4..c}. row0 ! j \<noteq> Blank"
  shows "c - 4 < length (membersList_of row0) \<and> membersList_of row0 ! (c - 4) = row0 ! c"
proof -
  have "c - 4 < length (drop 4 row0)" using assms by simp
  moreover have "\<forall>j\<le>c - 4. drop 4 row0 ! j \<noteq> Blank"
    using assms by auto
  ultimately have "c - 4 < length (filter (\<lambda>x. x \<noteq> Blank) (drop 4 row0))
     \<and> filter (\<lambda>x. x \<noteq> Blank) (drop 4 row0) ! (c - 4) = drop 4 row0 ! (c - 4)"
    by (rule filter_take_all)
  with assms show ?thesis by (simp add: membersList_of_def)
qed

text \<open>
  X2 (the capacity rows of the loader, to C6). Take a member whose name stands in column
  \<open>c\<close> of row 0, with no blank cell in the columns 4 to \<open>c\<close> of that row and with member
  names that are distinct as property keys. The member is at roster position \<open>c - 4\<close>, and a
  capacity row (a row whose column 1 is \<open>CAPA\<close> while an iteration is current) records for
  the member and the current iteration the value of column \<open>c\<close> times 3600 when that cell
  is a number, and leaves the recorded value as it was otherwise. So 8 hours are recorded as
  28800 seconds. A number in that cell is an integer whose product with 3600 is at most
  \<open>2 ^ 53\<close> in magnitude, so that the multiplication of the code is exact.
\<close>

theorem capacity_row_records_hours:
  assumes "4 \<le> c" and "c < length row0" and "\<forall>j\<in>{4..c}. row0 ! j \<noteq> Blank"
    and "distinct (map (key_of numToString) (membersList_of row0))"
    and "map_of (capacityMap st) (key_of numToString (row0 ! c)) \<noteq> None"
    and "row \<noteq> []" and "cell_at row 1 = Str ''CAPA''"
    and "iteration_of_row row (currentIteration st) = Some it"
    and "it \<noteq> []" and "it \<noteq> ''__proto__''"
    and "\<forall>val. cell_at row c = Num val
           \<longrightarrow> val \<in> \<int> \<and> \<bar>val\<bar> * 3600 \<le> of_int double_exact_bound"
  shows "membersList_of row0 ! (c - 4) = row0 ! c
       \<and> capacity_lookup
            (capacityMap (process_row numToString (membersList_of row0) row st))
            (key_of numToString (row0 ! c)) it
          = (case cell_at row c of
               Num val \<Rightarrow> Some (val * 3600)
             | _ \<Rightarrow> capacity_lookup (capacityMap st) (key_of numToString (row0 ! c)) it)"
proof -
  let ?ml = "membersList_of row0"
  from roster_column[OF assms(1-3)] have len: "c - 4 < length ?ml" and at: "?ml ! (c - 4) = row0 ! c"
    by simp_all
  have pm: "capacityMap (process_row numToString ?ml row st)
      = capa_row numToString ?ml row it (capacityMap st)"
    using assms(6-9) by (simp add: process_row_def Let_def)
  have keys: "map (\<lambda>p. key_of numToString (fst p)) (zip ?ml [0..<length ?ml]) = map (key_of numToString) ?ml"
  proof -
    have "map (\<lambda>p. key_of numToString (fst p)) (zip ?ml [0..<length ?ml])
        = map (key_of numToString) (map fst (zip ?ml [0..<length ?ml]))"
      by (simp only: map_map comp_def)
    then show ?thesis by simp
  qed
  have d: "distinct (map (\<lambda>p. key_of numToString (fst p)) (zip ?ml [0..<length ?ml]))"
    using assms(4) by (simp only: keys)
  have mem: "(row0 ! c, c - 4) \<in> set (zip ?ml [0..<length ?ml])"
    using len at by (auto simp: in_set_zip intro!: exI[of _ "c - 4"])
  from capa_step_member[OF d mem assms(5) assms(10), of row] assms(1)
  have "capacity_lookup (capa_row numToString ?ml row it (capacityMap st)) (key_of numToString (row0 ! c)) it
       = (case cell_at row c of
               Num val \<Rightarrow> Some (val * 3600)
             | _ \<Rightarrow> capacity_lookup (capacityMap st) (key_of numToString (row0 ! c)) it)"
    by (simp add: capa_row_def)
  with pm at show ?thesis by simp
qed

theorem capacity_row_records_hours_witness:
  "membersList_of [Blank, Blank, Blank, Blank, Str ''Alice'', Str ''Bob''] ! 1 = Str ''Bob''
   \<and> capacity_lookup
        (capacityMap (process_row (\<lambda>q. [])
           (membersList_of [Blank, Blank, Blank, Blank, Str ''Alice'', Str ''Bob''])
           [Str ''PI2026_04_01'', Str ''CAPA'', Blank, Blank, Str ''n/a'', Num 8]
           \<lparr>currentIteration = None, capacityMap = [(''Alice'', []), (''Bob'', [])]\<rparr>))
        ''Bob'' ''26_04_01'' = Some 28800"
proof -
  let ?hdr = "[Blank, Blank, Blank, Blank, Str ''Alice'', Str ''Bob'']"
  let ?row = "[Str ''PI2026_04_01'', Str ''CAPA'', Blank, Blank, Str ''n/a'', Num 8]"
  let ?st = "\<lparr>currentIteration = None, capacityMap = [(''Alice'', []), (''Bob'', [])]\<rparr>"
  have h1: "(4::nat) \<le> 5" and h2: "5 < length ?hdr" by simp_all
  have h3: "\<forall>j\<in>{4..5}. ?hdr ! j \<noteq> Blank" by code_simp
  have h4: "distinct (map (key_of (\<lambda>q. [])) (membersList_of ?hdr))" by code_simp
  have h5: "map_of (capacityMap ?st) (key_of (\<lambda>q. []) (?hdr ! 5)) \<noteq> None"
    by (simp add: key_of_def)
  have h6: "?row \<noteq> []" and h7: "cell_at ?row 1 = Str ''CAPA''" by (simp_all add: cell_at_def)
  have h8: "iteration_of_row ?row (currentIteration ?st) = Some ''26_04_01''" by code_simp
  have h9: "''26_04_01'' \<noteq> []" and h10: "''26_04_01'' \<noteq> ''__proto__''" by simp_all
  have k: "key_of (\<lambda>q. []) (?hdr ! 5) = ''Bob''" "cell_at ?row 5 = Num 8" "?hdr ! 5 = Str ''Bob''"
    by (simp_all add: key_of_def cell_at_def)
  have h11: "\<forall>val. cell_at ?row 5 = Num val
           \<longrightarrow> val \<in> \<int> \<and> \<bar>val\<bar> * 3600 \<le> of_int double_exact_bound"
    by (simp add: k double_exact_bound_def)
  from capacity_row_records_hours[OF h1 h2 h3 h4 h5 h6 h7 h8 h9 h10 h11]
  show ?thesis by (simp add: k key_of_def)
qed

lemma probe_loop_advance:
  assumes "iterationNum s = i" "i \<le> n" "n \<le> 50"
    and "\<forall>m. i \<le> m \<and> m < n \<longrightarrow> issues_of (src (sprint_name p m)) \<noteq> []"
  shows "probe_loop p src s = probe_loop p src
     (s\<lparr>allIssues := allIssues s @ collected p src i n,
       iterationsFound := foldl (\<lambda>fs m. set_add (sprint_name p m) fs) (iterationsFound s) [i..<n],
       iterationNum := n,
       probed := probed s @ map (sprint_name p) [i..<n]\<rparr>)"
  using assms
proof (induction "n - i" arbitrary: i s)
  case 0
  then have "i = n" by simp
  moreover from 0 have "s\<lparr>iterationNum := n\<rparr> = s" by (cases s) auto
  ultimately show ?case by (simp add: collected_def)
next
  case (Suc k)
  then have lt: "i < n" by simp
  with Suc.prems have "issues_of (src (sprint_name p i)) \<noteq> []" by simp
  then obtain iss where iss: "src (sprint_name p i) = HttpOk iss" "iss \<noteq> []"
    by (cases "src (sprint_name p i)") (simp_all add: issues_of_def)
  let ?s2 = "found_issues (sprint_name p i) iss (s\<lparr>probed := probed s @ [sprint_name p i]\<rparr>)"
  have n2: "iterationNum ?s2 = Suc i" using Suc.prems by (simp add: found_issues_def)
  have IH: "probe_loop p src ?s2 = probe_loop p src (?s2\<lparr>allIssues := allIssues ?s2 @ collected p src (Suc i) n,
       iterationsFound := foldl (\<lambda>fs m. set_add (sprint_name p m) fs) (iterationsFound ?s2) [Suc i..<n],
       iterationNum := n,
       probed := probed ?s2 @ map (sprint_name p) [Suc i..<n]\<rparr>)"
    using Suc.hyps(2) Suc.prems lt by (intro Suc.hyps(1)[OF _ n2]) auto
  have "probe_loop p src s = probe_loop p src ?s2"
    using iss n2 lt Suc.prems by (subst probe_loop.simps) (simp add: Let_def)
  also note IH
  finally show ?case using lt iss Suc.prems
    by (simp add: found_issues_def collected_def upt_conv_Cons issues_of_def)
qed

text \<open>
  X4 (a request that throws, to C2). When the issue source answers every iteration before
  \<open>n\<close> with at least one issue and the request for iteration \<open>n\<close> throws (the promise of
  \<^verbatim>\<open>fetch\<close> rejects, or the body cannot be parsed), the exception leaves the loop and
  the handler answers with status 500; nothing of what was collected is reported.
\<close>

theorem rejected_fetch_fails_the_request:
  assumes "1 \<le> n" and "n \<le> 50"
    and "\<forall>m\<in>{1..<n}. issues_of (src (sprint_name piName m)) \<noteq> []"
    and "src (sprint_name piName n) = FetchThrows"
    and "piName \<noteq> []"
  shows "prober piName src = Inl FetchRejected
       \<and> capacity_handler localeCompare numToString dir src (Some piName)
           = Failure 500 ''Failed to fetch capacity data''"
proof -
  have ne: "\<forall>m. 1 \<le> m \<and> m < n \<longrightarrow> issues_of (src (sprint_name piName m)) \<noteq> []"
    using assms(3) by simp
  let ?s = "probe_init\<lparr>allIssues := allIssues probe_init @ collected piName src 1 n,
       iterationsFound := foldl (\<lambda>fs m. set_add (sprint_name piName m) fs) (iterationsFound probe_init) [1..<n],
       iterationNum := n,
       probed := probed probe_init @ map (sprint_name piName) [1..<n]\<rparr>"
  have "probe_loop piName src probe_init = probe_loop piName src ?s"
    by (rule probe_loop_advance[OF _ assms(1,2) ne]) (simp add: probe_init_def)
  also have "thrown (probe_loop piName src ?s) = Some FetchRejected"
    using assms(4) by (subst probe_loop.simps) (simp add: Let_def)
  finally have "thrown (probe_loop piName src probe_init) = Some FetchRejected" .
  then have "prober piName src = Inl FetchRejected" by (simp add: prober_def)
  with assms(5) show ?thesis by (simp add: capacity_handler_def)
qed

theorem rejected_fetch_fails_the_request_witness:
  "capacity_handler default (\<lambda>q. []) (\<lambda>f. None)
     (\<lambda>nm. if nm = ''PI_02'' then FetchThrows
           else HttpOk [\<lparr>issue_fields = \<lparr>assignee = None, timeestimate = None\<rparr>,
                         sprintName_tag = None\<rparr>])
     (Some ''PI'')
   = Failure 500 ''Failed to fetch capacity data''"
proof -
  let ?src = "\<lambda>nm. if nm = ''PI_02'' then FetchThrows
           else HttpOk [\<lparr>issue_fields = \<lparr>assignee = None, timeestimate = None\<rparr>,
                         sprintName_tag = None\<rparr>]"
  have h1: "(1::nat) \<le> 2" and h2: "(2::nat) \<le> 50" and h5: "''PI'' \<noteq> []" by simp_all
  have h3: "\<forall>m\<in>{1..<2}. issues_of (?src (sprint_name ''PI'' m)) \<noteq> []" by code_simp
  have h4: "?src (sprint_name ''PI'' 2) = FetchThrows" by code_simp
  from rejected_fetch_fails_the_request[of 2 ?src "''PI''" default "\<lambda>q. []" "\<lambda>f. None", OF h1 h2 h3 h4 h5]
  show ?thesis by simp
qed

end
